theory Spec2Isabelle
  imports Main "HOL-Library.Word" "HOL-Library.Signed_Division" "HOL-Library.Monad_Syntax"
begin

unbundle bit_operations_syntax

section \<open>The editor state of melt.cpp\<close>

text \<open>
  The C++ types are modelled as follows.
  \<^item> \<open>unsigned\<close> and \<open>int\<close> are both 32-bit words. A \<open>static_cast\<close> between them keeps
    the bits, so both are \<open>32 word\<close>; an \<open>unsigned\<close> comparison is \<open><\<close> on words, an
    \<open>int\<close> comparison is the signed \<open><s\<close>. Addition and subtraction wrap around (for
    \<open>int\<close> this is what the compiled code does; the C++ standard leaves it undefined).
  \<^item> \<open>size_t\<close> values are sizes of strings and vectors and are modelled as \<open>nat\<close>;
    where \<open>size_t\<close> arithmetic can wrap (\<open>lines.size() - 1\<close> on an empty vector, a
    difference converted to \<open>int\<close>), the wrap is written out where it occurs.
  \<^item> \<open>std::string\<close> is \<open>string\<close>, \<open>std::vector<std::string>\<close> is \<open>string list\<close>.
  \<^item> An access \<open>lines[i]\<close> outside the vector has no defined behaviour in C++; a
    function of the model that would perform one returns \<open>None\<close>.
  The record \<open>melt\<close> holds the fields of the class \<open>Melt\<close>; the frame buffer \<open>back\<close> is
  the field \<open>back_buf\<close>.
\<close>

type_synonym u32 = "32 word"
type_synonym i32 = "32 word"

record melt =
  lines :: "string list"
  front :: "string list"
  back_buf :: "string list"
  fstate :: int
  edmode :: int
  fname :: string
  sbar :: string
  smessage :: string
  cmd :: string
  last_cmd :: string
  cx :: u32
  cy :: u32
  ox :: u32
  oy :: u32
  mx :: u32
  my :: u32
  ax :: u32
  ay :: u32
  is_running :: bool
  is_ws_changed :: bool

text \<open>\<open>std::min\<close> and \<open>std::max\<close> on \<open>int\<close>: \<open>min(a, b)\<close> is \<open>b < a ? b : a\<close> and
  \<open>max(a, b)\<close> is \<open>a < b ? b : a\<close>.\<close>

definition smin :: "i32 \<Rightarrow> i32 \<Rightarrow> i32" where
  "smin a b = (if b <s a then b else a)"

definition smax :: "i32 \<Rightarrow> i32 \<Rightarrow> i32" where
  "smax a b = (if a <s b then b else a)"


definition at_i :: "string list \<Rightarrow> i32 \<Rightarrow> string option" where
  "at_i ls i = (if 0 \<le>s i \<and> unat i < length ls then Some (ls ! unat i) else None)"

section \<open>Helpers\<close>

subsection \<open>Tab expansion\<close>

definition tab_width :: nat where
  "tab_width = 4"

definition TAB :: char where
  "TAB = CHR 0x09"

text \<open>\<open>Melt::visualLength\<close>: the accumulator \<open>len\<close> is a \<open>size_t\<close>.\<close>

primrec visualLength_loop :: "nat \<Rightarrow> string \<Rightarrow> nat" where
  "visualLength_loop len [] = len"
| "visualLength_loop len (c # cs) =
     (if c = TAB then visualLength_loop (len + (tab_width - len mod tab_width)) cs
      else visualLength_loop (len + 1) cs)"

definition visualLength :: "string \<Rightarrow> nat" where
  "visualLength s = visualLength_loop 0 s"

text \<open>\<open>Melt::expandTabs\<close>: the column counter \<open>col\<close> is an \<open>int\<close>, \<open>%\<close> on \<open>int\<close>
  truncates towards zero (\<open>smod\<close>), and \<open>ret.append(spaces, ' ')\<close> converts \<open>spaces\<close>
  (always between 1 and 7) to \<open>size_t\<close>.\<close>

primrec expandTabs_loop :: "i32 \<Rightarrow> string \<Rightarrow> string \<Rightarrow> string" where
  "expandTabs_loop col ret [] = ret"
| "expandTabs_loop col ret (c # cs) =
     (if c = TAB then
        (let spaces = (word_of_int (int tab_width - (sint col smod int tab_width)) :: i32)
         in expandTabs_loop (col + spaces) (ret @ replicate (unat spaces) (CHR '' '')) cs)
      else expandTabs_loop (col + 1) (ret @ [c]) cs)"

definition expandTabs :: "string \<Rightarrow> string" where
  "expandTabs s = expandTabs_loop 0 [] s"

subsection \<open>Filename validation\<close>

text \<open>Whether plain \<open>char\<close> is signed is left to the C++ implementation (it is signed on
  x86 and on Apple's ARM targets, unsigned on ARM Linux). \<open>Melt::valFn\<close> compares a
  \<open>char\<close> with 32, so the model takes the signedness as the parameter \<open>sg\<close>:
  \<open>char_val sg c\<close> is the value of \<open>c\<close> after integral promotion.\<close>

definition char_val :: "bool \<Rightarrow> char \<Rightarrow> int" where
  "char_val sg c =
     (if sg \<and> 128 \<le> (of_char c :: int) then of_char c - 256 else of_char c)"

text \<open>\<open>::toupper\<close> in the "C" locale (the program never calls \<open>setlocale\<close>).\<close>

definition toupper :: "char \<Rightarrow> char" where
  "toupper c =
     (if (97::nat) \<le> of_char c \<and> (of_char c :: nat) \<le> 122
      then char_of ((of_char c :: nat) - 32) else c)"

definition MAX_FN_LEN :: nat where
  "MAX_FN_LEN = 255"

definition reserved :: "string list" where
  "reserved =
     [''CON'', ''PRN'', ''AUX'', ''NUL'', ''COM1'', ''COM2'', ''COM3'', ''COM4'', ''COM5'',
      ''COM6'', ''COM7'', ''COM8'', ''COM9'', ''LPT1'', ''LPT2'', ''LPT3'', ''LPT4'',
      ''LPT5'', ''LPT6'', ''LPT7'', ''LPT8'', ''LPT9'']"

definition invalid_chars :: string where
  "invalid_chars =
     [CHR ''<'', CHR ''>'', CHR '':'', CHR 0x22, CHR ''/'', CHR 0x5C, CHR ''|'', CHR ''?'',
      CHR ''*'']"

definition valFn :: "bool \<Rightarrow> string \<Rightarrow> bool" where
  "valFn sg fn =
     (if fn = [] then False
      else if length fn > MAX_FN_LEN then False
      else if hd fn = CHR '' '' \<or> last fn = CHR '' '' \<or> last fn = CHR ''.'' then False
      else if (\<exists>c \<in> set fn. char_val sg c < 32 \<or> c \<in> set invalid_chars) then False
      else (let name_only = takeWhile (\<lambda>c. c \<noteq> CHR ''.'') fn;
                upper_name = map toupper name_only
            in upper_name \<notin> set reserved))"

section \<open>Text editing operations\<close>

text \<open>In the bounds checks an \<open>unsigned\<close> is compared with a \<open>size_t\<close>, that is, as
  natural numbers. \<open>y + 1\<close> in \<open>jnLn\<close> and \<open>spLn\<close> is an \<open>unsigned\<close> addition.\<close>

definition insCh :: "u32 \<Rightarrow> u32 \<Rightarrow> char \<Rightarrow> melt \<Rightarrow> melt" where
  "insCh x y c s =
     (if unat y < length (lines s) \<and> unat x \<le> length (lines s ! unat y)
      then s\<lparr>lines := (lines s)[unat y :=
                 take (unat x) (lines s ! unat y) @ c # drop (unat x) (lines s ! unat y)]\<rparr>
      else s)"

definition rmCh :: "u32 \<Rightarrow> u32 \<Rightarrow> melt \<Rightarrow> melt" where
  "rmCh x y s =
     (if unat y < length (lines s) \<and> unat x < length (lines s ! unat y)
      then s\<lparr>lines := (lines s)[unat y :=
                 take (unat x) (lines s ! unat y) @ drop (unat x + 1) (lines s ! unat y)]\<rparr>
      else s)"

definition insLn :: "u32 \<Rightarrow> string \<Rightarrow> melt \<Rightarrow> melt" where
  "insLn y l s =
     (if unat y \<le> length (lines s)
      then s\<lparr>lines := take (unat y) (lines s) @ l # drop (unat y) (lines s)\<rparr>
      else s)"

definition rmLn :: "u32 \<Rightarrow> melt \<Rightarrow> melt" where
  "rmLn y s =
     (if unat y < length (lines s)
      then s\<lparr>lines := take (unat y) (lines s) @ drop (unat y + 1) (lines s)\<rparr>
      else s)"

text \<open>\<open>jnLn\<close>: on an empty vector \<open>lines.size() - 1\<close> wraps to the largest \<open>size_t\<close>, the
  test succeeds for every \<open>y\<close> and \<open>lines[y]\<close> is read out of range. Otherwise
  \<open>y < lines.size() - 1\<close> makes both \<open>lines[y]\<close> and \<open>lines[y + 1]\<close> accesses in range
  (if \<open>y + 1\<close> wraps, it is 0).\<close>

definition jnLn :: "u32 \<Rightarrow> melt \<Rightarrow> melt option" where
  "jnLn y s =
     (if lines s = [] then None
      else if unat y < length (lines s) - 1
      then Some (rmLn (y + 1)
             (s\<lparr>lines := (lines s)[unat y := lines s ! unat y @ lines s ! unat (y + 1)]\<rparr>))
      else Some s)"

definition spLn :: "u32 \<Rightarrow> u32 \<Rightarrow> melt \<Rightarrow> melt" where
  "spLn x y s =
     (if unat y < length (lines s) \<and> unat x \<le> length (lines s ! unat y)
      then (let str = drop (unat x) (lines s ! unat y)
            in insLn (y + 1) str
                 (s\<lparr>lines := (lines s)[unat y := take (unat x) (lines s ! unat y)]\<rparr>))
      else s)"

section \<open>Cursor operations\<close>

definition scrollUp :: "u32 \<Rightarrow> melt \<Rightarrow> melt" where
  "scrollUp d s = (if oy s \<ge> d then s\<lparr>oy := oy s - d\<rparr> else s)"

definition scrollDown :: "u32 \<Rightarrow> melt \<Rightarrow> melt" where
  "scrollDown d s = (if unat (oy s + d) < length (lines s) then s\<lparr>oy := oy s + d\<rparr> else s)"

definition scrollLeft :: "u32 \<Rightarrow> melt \<Rightarrow> melt" where
  "scrollLeft d s = (if ox s \<ge> d then s\<lparr>ox := ox s - d\<rparr> else s\<lparr>ox := 0\<rparr>)"

text \<open>\<open>scrollRight\<close>: the loop runs over \<open>i = 0, 1, ...\<close> while \<open>i < front.size()\<close> and
  \<open>i + oy < lines.size()\<close> (a \<open>size_t\<close> sum), taking the \<open>int\<close> maximum of the visual
  lengths of the rows \<open>lines[i + oy]\<close>.\<close>

definition max_length :: "melt \<Rightarrow> i32" where
  "max_length s =
     foldl (\<lambda>m i. smax m (of_nat (visualLength (lines s ! (i + unat (oy s))))))
       0 [0 ..< min (length (front s)) (length (lines s) - unat (oy s))]"

definition scrollRight :: "u32 \<Rightarrow> melt \<Rightarrow> melt" where
  "scrollRight d s =
     (if front s = [] then s
      else if ox s + d < max_length s then s\<lparr>ox := ox s + d\<rparr> else s)"

text \<open>\<open>scrollToFit\<close> is its horizontal block followed by its vertical block.\<close>

definition fitHorizontal :: "melt \<Rightarrow> melt" where
  "fitHorizontal s =
     (if cx s < ox s then scrollLeft (ox s - cx s) s
      else if cx s \<ge> ox s + ax s then scrollRight (cx s - (ox s + ax s) + 1) s
      else s)"

definition fitVertical :: "melt \<Rightarrow> melt" where
  "fitVertical s =
     (if cy s < oy s then scrollUp (oy s - cy s) s
      else if cy s \<ge> oy s + ay s then scrollDown (cy s - (oy s + ay s) + 1) s
      else s)"

definition scrollToFit :: "melt \<Rightarrow> melt" where
  "scrollToFit s = fitVertical (fitHorizontal s)"

text \<open>\<open>mvCursor\<close> in the order of the source. \<open>clampRow\<close> is the clamp of \<open>ny\<close>
  (\<open>lines.size() - 1\<close> is computed in \<open>size_t\<close> and converted to \<open>int\<close>); \<open>targetCol\<close>
  is the \<open>std::min\<close> applied when the row changed; \<open>wrapPos\<close> is the final
  \<open>if (nx < 0) ... else if (nx > length) ...\<close>.\<close>

definition clampRow :: "string list \<Rightarrow> i32 \<Rightarrow> i32" where
  "clampRow ls ny =
     (if ny <s 0 then 0
      else if of_nat (length ls) \<le>s ny then of_nat (length ls) - 1
      else ny)"

definition targetCol :: "melt \<Rightarrow> i32 \<Rightarrow> i32 \<Rightarrow> i32 option" where
  "targetCol s nx ny =
     (if ny \<noteq> cy s \<and> 0 \<le>s ny \<and> ny <s of_nat (length (lines s))
      then do { l \<leftarrow> at_i (lines s) ny; Some (smin nx (of_nat (length l))) }
      else Some nx)"

definition wrapPos :: "string list \<Rightarrow> i32 \<Rightarrow> i32 \<Rightarrow> (i32 \<times> i32) option" where
  "wrapPos ls nx ny =
     (if nx <s 0
      then (if 0 <s ny
            then do { l \<leftarrow> at_i ls (ny - 1); Some (of_nat (length l), ny - 1) }
            else Some (0, ny))
      else do {
        l \<leftarrow> at_i ls ny;
        if of_nat (length l) <s nx
        then Some (0, if ny <s of_nat (length ls) - 1 then ny + 1 else ny)
        else Some (nx, ny)
      })"

definition mvTarget :: "i32 \<Rightarrow> i32 \<Rightarrow> melt \<Rightarrow> (i32 \<times> i32) option" where
  "mvTarget xd yd s =
     (let ny = clampRow (lines s) (cy s + yd)
      in do { nx \<leftarrow> targetCol s (cx s + xd) ny; Some (nx, ny) })"

definition mvCursor :: "i32 \<Rightarrow> i32 \<Rightarrow> melt \<Rightarrow> melt option" where
  "mvCursor xd yd s = do {
     (nx, ny) \<leftarrow> mvTarget xd yd s;
     (nx', ny') \<leftarrow> wrapPos (lines s) nx ny;
     Some (scrollToFit (s\<lparr>cx := nx', cy := ny'\<rparr>))
   }"

section \<open>The environment\<close>

text \<open>
  The collaborators of the editor are inputs of the model: the keys that \<open>getch\<close>
  returns (a list, consumed from the front; reading from the empty list blocks for
  ever, which is the result \<open>None\<close>), the terminal size that \<open>getmaxyx\<close> reports, and
  the file system and the curses start-up, collected in the record \<open>env\<close>. What is
  written to the terminal or to a file is not part of the state.
\<close>

datatype read_result = CannotOpen | ReadError | Content "string list"

record env =
  signed_char :: bool
  can_write :: "string \<Rightarrow> bool"
  file_exists :: "string \<Rightarrow> bool"
  file_read :: "string \<Rightarrow> read_result"
  initscr_ok :: bool
  modes_ok :: bool

type_synonym world = "melt \<times> int list"

definition KEY_BACKSPACE :: int where "KEY_BACKSPACE = 263"
definition KEY_ENTER :: int where "KEY_ENTER = 343"

text \<open>\<open>char chr = getch()\<close>: the \<open>int\<close> is reduced to 8 bits; \<open>chr_of_int\<close> is the value
  of the \<open>char\<close> after promotion back to \<open>int\<close>.\<close>

definition chr_of_int :: "bool \<Rightarrow> int \<Rightarrow> int" where
  "chr_of_int sg k = (let b = k mod 256 in if sg \<and> 128 \<le> b then b - 256 else b)"

text \<open>\<open>std::string::resize(n, c)\<close>.\<close>

definition resize :: "nat \<Rightarrow> 'a \<Rightarrow> 'a list \<Rightarrow> 'a list" where
  "resize n c xs = take n xs @ replicate (n - length xs) c"

section \<open>File input and output\<close>

text \<open>\<open>Melt::save\<close> returns the error message, if any; \<open>Melt::load\<close> returns the new
  state and the error message, if any. \<open>Content ls\<close> are the lines that \<open>std::getline\<close>
  delivers.\<close>

definition save :: "env \<Rightarrow> string \<Rightarrow> string option" where
  "save env fn =
     (if fn = [] then Some ''Empty filename!''
      else if \<not> can_write env fn then Some (''Failed to open '' @ fn @ '' for writing!'')
      else None)"


section \<open>The command interpreter\<close>

text \<open>The body of the Enter case of the filename prompt of the \<open>w\<close> command.\<close>

definition confirmWrite :: "env \<Rightarrow> string \<Rightarrow> melt \<Rightarrow> melt" where
  "confirmWrite env fn s =
     (if fn = [] then s\<lparr>smessage := ''Empty filename!''\<rparr>
      else if \<not> valFn (signed_char env) fn then s\<lparr>smessage := ''Invalid filename!''\<rparr>
      else case save env fn of
        Some err \<Rightarrow> s\<lparr>smessage := err\<rparr>
      | None \<Rightarrow> s\<lparr>fname := fn, smessage := ''Successfully written to '' @ fn, fstate := 1\<rparr>)"

text \<open>The loop \<open>while (chr != 27)\<close> of the \<open>w\<close> command; \<open>fn\<close> is the filename typed so
  far. A \<open>char\<close> never equals \<open>KEY_ENTER\<close> or \<open>KEY_BACKSPACE\<close>; the comparisons are kept
  as in the source.\<close>

fun promptLoop :: "env \<Rightarrow> string \<Rightarrow> melt \<Rightarrow> int list \<Rightarrow> world option" where
  "promptLoop env fn s [] = None"
| "promptLoop env fn s (k # inp) =
     (let chr = chr_of_int (signed_char env) k
      in if chr = KEY_ENTER \<or> chr = 10 \<or> chr = 13 then Some (confirmWrite env fn s, inp)
         else if chr = KEY_BACKSPACE \<or> chr = 127 \<or> chr = 8
           then promptLoop env (butlast fn) s inp
         else if 32 \<le> chr \<and> chr \<le> 126
           then promptLoop env (fn @ [char_of (nat chr)]) s inp
         else if chr = 27 then Some (s, inp)
         else promptLoop env fn s inp)"

text \<open>One iteration of \<open>for (auto ch : c)\<close> in \<open>Melt::processCmd\<close>. The flag of the
  result says whether the iteration executed \<open>return\<close>. \<open>replay\<close> stands for the
  recursive call \<open>processCmd(last_cmd)\<close>.\<close>

definition cmdStep ::
  "env \<Rightarrow> (world \<Rightarrow> world option) \<Rightarrow> char \<Rightarrow> world \<Rightarrow> (bool \<times> world) option" where
  "cmdStep env replay ch w =
     (let s = fst w; inp = snd w
      in if ch = CHR ''.'' then map_option (Pair False) (replay w)
         else if ch = CHR ''s'' then
           Some (False,
             (case save env (fname s) of
                Some err \<Rightarrow> s\<lparr>smessage := err\<rparr>
              | None \<Rightarrow> s\<lparr>smessage := ''Successfully written to '' @ fname s, fstate := 1\<rparr>),
             inp)
         else if ch = CHR ''w'' then
           map_option (Pair False)
             (promptLoop env [] (s\<lparr>smessage := resize (unat (mx s)) (CHR '' '') ''Write file: ''\<rparr>)
                inp)
         else if ch = CHR ''q'' then
           Some (False,
             (if fstate s = 2
              then s\<lparr>smessage := ''No write since last change (use Q to override)!''\<rparr>
              else s\<lparr>is_running := False\<rparr>),
             inp)
         else if ch = CHR ''Q'' then Some (False, s\<lparr>is_running := False\<rparr>, inp)
         else if ch = CHR ''d'' then
           (if cy s > 0
            then map_option (\<lambda>s'. (False, s'\<lparr>fstate := 2\<rparr>, inp))
                   (mvCursor 0 (- 1) (rmLn (cy s) s))
            else Some (False, s\<lparr>smessage := ''Only one line left!''\<rparr>, inp))
         else Some (True, s\<lparr>smessage := ''Unknown command: '' @ [ch]\<rparr>, inp))"

primrec cmdLoop ::
  "(char \<Rightarrow> world \<Rightarrow> (bool \<times> world) option) \<Rightarrow> string \<Rightarrow> world \<Rightarrow> (bool \<times> world) option"
  where
  "cmdLoop step [] w = Some (False, w)"
| "cmdLoop step (ch # rest) w =
     (case step ch w of
        None \<Rightarrow> None
      | Some (returned, w') \<Rightarrow> if returned then Some (True, w') else cmdLoop step rest w')"

text \<open>\<open>Melt::processCmd\<close>. The first argument bounds the depth of the recursion through
  \<open>.\<close>; the result \<open>None\<close> means that the depth was exceeded, that the filename prompt
  ran out of keyboard input, or that a cursor move left the defined behaviour. The
  argument \<open>c\<close> is a \<open>string_view\<close>; the model passes the string by value, which differs
  from the source only if \<open>last_cmd\<close> is assigned while a view of it is being iterated,
  and that needs a \<open>.\<close> inside the replayed \<open>last_cmd\<close>, where the recursion never
  returns. The final assignment stores the member \<open>cmd\<close>, not the argument.\<close>

primrec processCmd :: "nat \<Rightarrow> env \<Rightarrow> string \<Rightarrow> world \<Rightarrow> world option" where
  "processCmd 0 env c w = (if c = [] then Some w else None)"
| "processCmd (Suc n) env c w =
     (if c = [] then Some w
      else case cmdLoop (cmdStep env (\<lambda>w'. processCmd n env (last_cmd (fst w')) w')) c w of
        None \<Rightarrow> None
      | Some (returned, w') \<Rightarrow>
          if returned then Some w'
          else Some ((fst w')\<lparr>last_cmd := cmd (fst w')\<rparr>, snd w'))"

section \<open>Keyboard events\<close>












section \<open>Start-up and the main loop\<close>

text \<open>The default-initialised \<open>Melt\<close> object.\<close>

definition melt0 :: melt where
  "melt0 = \<lparr>lines = [], front = [], back_buf = [], fstate = 0, edmode = 0, fname = [],
            sbar = [], smessage = [], cmd = [], last_cmd = [], cx = 0, cy = 0, ox = 0, oy = 0,
            mx = 0, my = 0, ax = 0, ay = 0, is_running = False, is_ws_changed = False\<rparr>"




text \<open>\<open>std::to_string\<close> on an \<open>unsigned\<close>: the decimal digits.\<close>

fun to_string :: "nat \<Rightarrow> string" where
  "to_string n =
     (if n < 10 then [char_of (48 + n)]
      else to_string (n div 10) @ [char_of (48 + n mod 10)])"

declare to_string.simps [simp del]

text \<open>The exceptions that leave \<open>update\<close>: the \<open>runtime_error\<close> it throws with its
  message, and the \<open>length_error\<close> of the \<open>std::string\<close> constructor.\<close>

datatype failure = runtime_error string | length_error

text \<open>The status bar that \<open>update\<close> builds. The number of blanks between its two
  parts is the \<open>size_t\<close> difference \<open>mx - info.length() - position.length()\<close>: when
  the parts are wider than the terminal the difference wraps to a size above
  \<open>max_size()\<close> and the constructor \<open>std::string(n, ' ')\<close> throws (\<open>None\<close>).\<close>

definition statusBar :: "melt \<Rightarrow> string option" where
  "statusBar s =
     (let dname = (if length (fname s) \<ge> 23 then take 20 (fname s) @ ''...'' else fname s);
          info = (if dname = [] then ''[NEW FILE]'' else dname)
                 @ (if fstate s = 2 then ''[+]'' else []);
          position = ''Ln '' @ to_string (unat (cy s + 1))
                     @ '', Col '' @ to_string (unat (cx s + 1))
      in if length info + length position \<le> unat (mx s)
         then Some (info
                    @ replicate (unat (mx s) - length info - length position) (CHR '' '')
                    @ position)
         else None)"

text \<open>\<open>Melt::update\<close> for the terminal size that \<open>getmaxyx\<close> reports. The loop writes
  \<open>back[i]\<close> for \<open>i < ay\<close>, which is out of range when \<open>back\<close> has fewer rows (\<open>None\<close>).
  \<open>Inl\<close> is the exception thrown.\<close>

definition getVisible :: "melt \<Rightarrow> string \<Rightarrow> string" where
  "getVisible s str =
     (let estr = expandTabs str
      in if length estr > unat (ox s)
         then (let cp_len = min (unat (ax s)) (length estr - unat (ox s))
               in resize (unat (ax s)) (CHR '' '') (take cp_len (drop (unat (ox s)) estr)))
         else replicate (unat (ax s)) (CHR '' ''))"

definition backRow :: "melt \<Rightarrow> nat \<Rightarrow> string" where
  "backRow s i =
     (if i + unat (oy s) < length (lines s) then getVisible s (lines s ! (i + unat (oy s)))
      else CHR ''~'' # replicate (unat (ax s - 1)) (CHR '' ''))"

definition update :: "u32 \<Rightarrow> u32 \<Rightarrow> melt \<Rightarrow> (failure + melt) option" where
  "update ny nx s =
     (let r = (if mx s \<noteq> nx \<or> my s \<noteq> ny
               then (let s1 = s\<lparr>is_ws_changed := True, mx := nx, my := ny, ax := nx,
                                 ay := ny - 2\<rparr>
                     in if ax s1 < 40 \<or> ay s1 < 12
                        then Inl (runtime_error ''Terminal size too small!'')
                        else Inr (s1\<lparr>back_buf := resize (unat (ay s1))
                                         (replicate (unat (ax s1)) (CHR '' '')) (back_buf s1),
                                      front := resize (unat (ay s1))
                                         (replicate (unat (ax s1)) (CHR '' '')) (front s1)\<rparr>))
               else Inr s)
      in case r of
           Inl e \<Rightarrow> Some (Inl e)
         | Inr s2 \<Rightarrow>
             if unat (ay s2) \<le> length (back_buf s2)
             then (let s3 = s2\<lparr>back_buf := map (backRow s2) [0 ..< unat (ay s2)]
                                               @ drop (unat (ay s2)) (back_buf s2)\<rparr>
                   in case statusBar s3 of
                        None \<Rightarrow> Some (Inl length_error)
                      | Some b \<Rightarrow>
                          Some (Inr (s3\<lparr>sbar := b,
                                        smessage := resize (unat (mx s3)) (CHR '' '')
                                                      (smessage s3)\<rparr>)))
             else None)"

text \<open>\<open>Melt::render\<close>: in both branches \<open>front\<close> ends equal to \<open>back\<close> and the redraw
  flag is off.\<close>

definition render :: "melt \<Rightarrow> melt" where
  "render s = s\<lparr>front := back_buf s, is_ws_changed := False\<rparr>"

text \<open>The documents whose sizes every \<open>static_cast<int>\<close> of \<open>mvCursor\<close> represents:
  fewer than \<open>2^31\<close> lines, each shorter than \<open>2^31\<close> characters. \<open>has_room\<close> leaves
  space for one more keystroke (one more line; a line joined with its neighbour and
  four more characters).\<close>

definition int_sized :: "string list \<Rightarrow> bool" where
  "int_sized ls = (length ls < 2 ^ 31 \<and> (\<forall>l \<in> set ls. length l < 2 ^ 31))"



section \<open>Notions used in the statements\<close>

text \<open>The characters that \<open>processCmd\<close> knows as commands, and those among them that
  are not the replay command.\<close>

definition known :: "char set" where
  "known = {CHR ''.'', CHR ''s'', CHR ''w'', CHR ''q'', CHR ''Q'', CHR ''d''}"

definition plain :: "char set" where
  "plain = {CHR ''s'', CHR ''w'', CHR ''q'', CHR ''Q'', CHR ''d''}"

text \<open>The document has a line and the cursor is on one of its rows.\<close>

definition row_ok :: "melt \<Rightarrow> bool" where
  "row_ok s = (lines s \<noteq> [] \<and> unat (cy s) < length (lines s))"

text \<open>Every line is shorter than \<open>B\<close>.\<close>

definition line_bound :: "nat \<Rightarrow> string list \<Rightarrow> bool" where
  "line_bound B ls = (\<forall>l \<in> set ls. length l < B)"

text \<open>An environment for the examples: \<open>char\<close> is signed, every file can be written, no
  file exists, curses starts.\<close>

definition env0 :: env where
  "env0 = \<lparr>signed_char = True, can_write = (\<lambda>fn. True), file_exists = (\<lambda>fn. False),
           file_read = (\<lambda>fn. CannotOpen), initscr_ok = True, modes_ok = True\<rparr>"

text \<open>The cursor is on a row of the document and the sizes of the document fit the
  \<open>int\<close> casts.\<close>

definition sound :: "melt \<Rightarrow> bool" where
  "sound s = (row_ok s \<and> int_sized (lines s))"

text \<open>The cursor lies inside the viewport, horizontally and vertically (as natural
  numbers).\<close>

definition in_view_x :: "melt \<Rightarrow> bool" where
  "in_view_x s = (unat (ox s) \<le> unat (cx s) \<and> unat (cx s) < unat (ox s) + unat (ax s))"

definition in_view_y :: "melt \<Rightarrow> bool" where
  "in_view_y s = (unat (oy s) \<le> unat (cy s) \<and> unat (cy s) < unat (oy s) + unat (ay s))"

definition in_viewport :: "melt \<Rightarrow> bool" where
  "in_viewport s = (in_view_x s \<and> in_view_y s)"

section \<open>The filename rule in the words of the specification\<close>

text \<open>The specification's rule for filenames, stated independently of \<open>valFn\<close>: a
  control character is one below 32, and two names are the same case-insensitively
  when they agree after mapping \<open>A\<close>..\<open>Z\<close> to lower case.\<close>

definition tolower_ascii :: "char \<Rightarrow> char" where
  "tolower_ascii c =
     (if (65::nat) \<le> of_char c \<and> (of_char c :: nat) \<le> 90
      then char_of ((of_char c :: nat) + 32) else c)"

definition same_ignoring_case :: "string \<Rightarrow> string \<Rightarrow> bool" where
  "same_ignoring_case a b = (map tolower_ascii a = map tolower_ascii b)"

definition valid_by_spec :: "string \<Rightarrow> bool" where
  "valid_by_spec fn =
     (fn \<noteq> [] \<and> length fn \<le> 255
      \<and> hd fn \<noteq> CHR '' '' \<and> last fn \<noteq> CHR '' '' \<and> last fn \<noteq> CHR ''.''
      \<and> (\<forall>c \<in> set fn. \<not> (of_char c :: int) < 32)
      \<and> (\<forall>c \<in> set fn. c \<notin> set invalid_chars)
      \<and> \<not> (\<exists>r \<in> set reserved. same_ignoring_case (takeWhile (\<lambda>c. c \<noteq> CHR ''.'') fn) r))"

text \<open>A file name with a letter outside ASCII: \<open>e\<close> with an acute accent in UTF-8
  (the bytes \<open>C3 A9\<close>), followed by \<open>.txt\<close>.\<close>

definition e_acute_txt :: string where
  "e_acute_txt = [CHR 0xC3, CHR 0xA9] @ ''.txt''"

section \<open>A terminal resize\<close>

text \<open>A terminal resize. \<open>wide_state\<close> is the state of a new document on a terminal
  of 80 columns and 32 rows after the keys Enter (12 times), \<open>a\<close> (50 times) and
  left-arrow (5 times): twelve empty lines and a thirteenth of 50 characters, the
  cursor at column 45 of the last line, inside the viewport; the status bar is the
  one drawn before the last key. \<open>resized_state\<close> is what \<open>update\<close> and \<open>render\<close> make
  of it when the terminal has shrunk to 40 columns and 14 rows: \<open>ax\<close>, \<open>ay\<close>, the
  frame buffers and the bars change, the origin and the cursor do not.\<close>

definition wide_state :: melt where
  "wide_state =
     melt0\<lparr>lines := replicate 12 [] @ [replicate 50 (CHR ''a'')],
           front := replicate 12 (replicate 80 (CHR '' ''))
                    @ [replicate 50 (CHR ''a'') @ replicate 30 (CHR '' '')]
                    @ replicate 17 (CHR ''~'' # replicate 79 (CHR '' '')),
           back_buf := replicate 12 (replicate 80 (CHR '' ''))
                    @ [replicate 50 (CHR ''a'') @ replicate 30 (CHR '' '')]
                    @ replicate 17 (CHR ''~'' # replicate 79 (CHR '' '')),
           fstate := 2,
           sbar := ''[NEW FILE][+]'' @ replicate 54 (CHR '' '') @ ''Ln 13, Col 47'',
           smessage := replicate 80 (CHR '' ''),
           cx := 45, cy := 12, mx := 80, my := 32, ax := 80, ay := 30,
           is_running := True\<rparr>"

definition resized_state :: melt where
  "resized_state =
     melt0\<lparr>lines := replicate 12 [] @ [replicate 50 (CHR ''a'')],
           front := replicate 12 (replicate 40 (CHR '' '')),
           back_buf := replicate 12 (replicate 40 (CHR '' '')),
           fstate := 2,
           sbar := ''[NEW FILE][+]'' @ replicate 14 (CHR '' '') @ ''Ln 13, Col 46'',
           smessage := replicate 40 (CHR '' ''),
           cx := 45, cy := 12, mx := 40, my := 14, ax := 40, ay := 12,
           is_running := True\<rparr>"

section \<open>Machine arithmetic\<close>

lemma sint_of_nat_small: "n < 2 ^ 31 \<Longrightarrow> sint (of_nat n :: 32 word) = int n"
proof -
  assume a: "n < 2 ^ 31"
  have "sint (of_nat n :: 32 word) = signed_take_bit (LENGTH(32) - Suc 0) (int n)"
    by (simp add: signed_of_nat)
  also have "\<dots> = int n"
    using a by (simp add: signed_take_bit_int_eq_self)
  finally show ?thesis .
qed

lemma unat_of_nat_small: "n < 2 ^ 32 \<Longrightarrow> unat (of_nat n :: 32 word) = n"
  by (simp add: unat_of_nat)

lemma sint_uint32: "sint (w :: 32 word) = (uint w + 2 ^ 31) mod 2 ^ 32 - 2 ^ 31"
  using int_word_sint [where 'a = 32, of "uint w"] by simp

lemma uint_lt32: "uint (w :: 32 word) < 2 ^ 32"
  using uint_lt2p [of w] by simp

lemma sint_nonneg_uint: 
  assumes "0 \<le> sint (w :: 32 word)" shows "sint w = uint w" and "uint w < 2 ^ 31"
proof -
  have u: "uint w < 2 ^ 32" by (rule uint_lt32)
  have s: "sint w = (uint w + 2 ^ 31) mod 2 ^ 32 - 2 ^ 31" by (rule sint_uint32)
  show lt: "uint w < 2 ^ 31"
  proof (rule ccontr)
    assume "\<not> uint w < 2 ^ 31"
    then have ge: "2 ^ 31 \<le> uint w" by simp
    have "(uint w + 2 ^ 31) mod 2 ^ 32 = uint w + 2 ^ 31 - 2 ^ 32"
      using ge u by (simp add: mod_pos_geq)
    with s u assms show False by simp
  qed
  then have "(uint w + 2 ^ 31) mod 2 ^ 32 = uint w + 2 ^ 31" by simp
  with s show "sint w = uint w" by simp
qed

lemma sint_nonneg_unat:
  assumes "0 \<le> sint (w :: 32 word)" shows "sint w = int (unat w)" and "unat w < 2 ^ 31"
proof -
  show "sint w = int (unat w)" using sint_nonneg_uint(1) [OF assms] by simp
  have "uint w < 2 ^ 31" by (rule sint_nonneg_uint(2) [OF assms])
  then have "int (unat w) < int (2 ^ 31)" by simp
  then show "unat w < 2 ^ 31" by (simp only: of_nat_less_iff)
qed

section \<open>Tab expansion: the two utilities agree\<close>

lemma visualLength_loop_ge: "n \<le> visualLength_loop n cs"
proof (induction cs arbitrary: n)
  case Nil
  then show ?case by simp
next
  case (Cons c cs)
  have "n \<le> n + (tab_width - n mod tab_width)" by simp
  moreover have "n \<le> n + 1" by simp
  ultimately show ?case
    using Cons.IH [of "n + (tab_width - n mod tab_width)"] Cons.IH [of "n + 1"]
    by (simp del: One_nat_def add_Suc_right) 
qed

lemma tab_spaces:
  assumes "n < 2 ^ 31"
  shows "(word_of_int (int tab_width - (sint (of_nat n :: 32 word) smod int tab_width)) :: 32 word)
           = of_nat (tab_width - n mod tab_width)"
proof -
  have "sint (of_nat n :: 32 word) smod int tab_width = int (n mod tab_width)"
    using assms by (simp add: sint_of_nat_small smod_mod_positive zmod_int)
  moreover have "n mod tab_width < tab_width" by (simp add: tab_width_def)
  ultimately show ?thesis by (simp add: of_nat_diff)
qed

lemma expandTabs_loop_length:
  "visualLength_loop n cs < 2 ^ 31 \<Longrightarrow>
   length (expandTabs_loop (of_nat n) ret cs) = length ret + (visualLength_loop n cs - n)"
proof (induction cs arbitrary: n ret)
  case Nil
  then show ?case by simp
next
  case (Cons c cs)
  show ?case
  proof (cases "c = TAB")
    case True
    let ?k = "tab_width - n mod tab_width"
    let ?m = "n + ?k"
    from Cons.prems True have b: "visualLength_loop ?m cs < 2 ^ 31" by simp
    have ge: "?m \<le> visualLength_loop ?m cs" by (rule visualLength_loop_ge)
    then have n: "n < 2 ^ 31" using b by linarith
    have sp: "?k < 2 ^ 32" by (simp add: tab_width_def)
    have col: "(of_nat n :: 32 word) + of_nat ?k = of_nat ?m" by (simp only: of_nat_add)
    have step: "expandTabs_loop (of_nat n) ret (c # cs)
                  = expandTabs_loop (of_nat ?m) (ret @ replicate ?k (CHR '' '')) cs"
      using True
      by (simp only: expandTabs_loop.simps simp_thms if_True Let_def tab_spaces [OF n]
            unat_of_nat_small [OF sp] col)
    have vl: "visualLength_loop n (c # cs) = visualLength_loop ?m cs"
      using True by simp
    have "length (expandTabs_loop (of_nat ?m) (ret @ replicate ?k (CHR '' '')) cs)
            = length (ret @ replicate ?k (CHR '' '')) + (visualLength_loop ?m cs - ?m)"
      by (rule Cons.IH [OF b])
    then show ?thesis
      unfolding step vl using ge by simp
  next
    case False
    from Cons.prems False have b: "visualLength_loop (n + 1) cs < 2 ^ 31" by simp
    have ge: "n + 1 \<le> visualLength_loop (n + 1) cs" by (rule visualLength_loop_ge)
    have col: "(of_nat n :: 32 word) + 1 = of_nat (n + 1)" by (simp only: of_nat_add of_nat_1)
    have step: "expandTabs_loop (of_nat n) ret (c # cs)
                  = expandTabs_loop (of_nat (n + 1)) (ret @ [c]) cs"
      using False by (simp only: expandTabs_loop.simps simp_thms if_False col)
    have vl: "visualLength_loop n (c # cs) = visualLength_loop (n + 1) cs"
      using False by simp
    have "length (expandTabs_loop (of_nat (n + 1)) (ret @ [c]) cs)
            = length (ret @ [c]) + (visualLength_loop (n + 1) cs - (n + 1))"
      by (rule Cons.IH [OF b])
    then show ?thesis
      unfolding step vl using ge by simp
  qed
qed

text \<open>
  Claim C10. For every string whose tab-expanded width is representable in the \<open>int\<close>
  column counter of \<open>expandTabs\<close> (below \<open>2^31\<close>), \<open>visualLength\<close> returns the length of
  the string that \<open>expandTabs\<close> returns.
\<close>

theorem visualLength_expandTabs:
  "visualLength s < 2 ^ 31 \<Longrightarrow> length (expandTabs s) = visualLength s"
  unfolding visualLength_def expandTabs_def
  using expandTabs_loop_length [of 0 "s" "[]"] by simp

theorem visualLength_expandTabs_witness:
  "visualLength [CHR ''a'', TAB, CHR ''b'', TAB, TAB] < 2 ^ 31 \<and>
   length (expandTabs [CHR ''a'', TAB, CHR ''b'', TAB, TAB]) = 12 \<and>
   visualLength [CHR ''a'', TAB, CHR ''b'', TAB, TAB] = 12"
proof -
  have v: "visualLength [CHR ''a'', TAB, CHR ''b'', TAB, TAB] = 12"
    by code_simp
  then have b: "visualLength [CHR ''a'', TAB, CHR ''b'', TAB, TAB] < 2 ^ 31"
    by simp
  show ?thesis
    using visualLength_expandTabs [OF b] v b by simp
qed

section \<open>Text buffer round trips\<close>

text \<open>
  Claim C6. For every document, every position \<open>(x, y)\<close> with \<open>y\<close> a row of the document
  and \<open>x\<close> at most the length of that row, and every character, \<open>insCh\<close> followed by
  \<open>rmCh\<close> at the same position restores the state, in particular the line at row \<open>y\<close>.
\<close>

theorem insCh_rmCh:
  assumes "unat y < length (lines s)" and "unat x \<le> length (lines s ! unat y)"
  shows "rmCh x y (insCh x y c s) = s
         \<and> lines (rmCh x y (insCh x y c s)) ! unat y = lines s ! unat y"
proof -
  let ?l = "lines s ! unat y"
  have len: "length (take (unat x) ?l) = unat x" using assms(2) by simp
  have ins: "insCh x y c s
               = s\<lparr>lines := (lines s)[unat y := take (unat x) ?l @ c # drop (unat x) ?l]\<rparr>"
    using assms by (simp add: insCh_def)
  have "take (unat x) (take (unat x) ?l @ c # drop (unat x) ?l) = take (unat x) ?l"
    using len by simp
  moreover have "drop (unat x + 1) (take (unat x) ?l @ c # drop (unat x) ?l) = drop (unat x) ?l"
    using len by simp
  ultimately have "rmCh x y (insCh x y c s) = s"
    using assms unfolding ins by (simp add: rmCh_def)
  then show ?thesis by simp
qed

theorem insCh_rmCh_witness:
  "lines (insCh 1 0 (CHR ''x'') (melt0\<lparr>lines := [''abc'', ''de'']\<rparr>)) = [''axbc'', ''de'']
   \<and> rmCh 1 0 (insCh 1 0 (CHR ''x'') (melt0\<lparr>lines := [''abc'', ''de'']\<rparr>))
       = melt0\<lparr>lines := [''abc'', ''de'']\<rparr>"
proof -
  have "lines (insCh 1 0 (CHR ''x'') (melt0\<lparr>lines := [''abc'', ''de'']\<rparr>)) = [''axbc'', ''de'']"
    by (simp add: insCh_def)
  moreover have "unat (0 :: u32) < length (lines (melt0\<lparr>lines := [''abc'', ''de'']\<rparr>))"
    by simp
  moreover have "unat (1 :: u32)
      \<le> length (lines (melt0\<lparr>lines := [''abc'', ''de'']\<rparr>) ! unat (0 :: u32))"
    by simp
  ultimately show ?thesis
    using insCh_rmCh [of 0 "melt0\<lparr>lines := [''abc'', ''de'']\<rparr>" 1 "CHR ''x''"] by blast
qed

lemma unat_plus_1: "unat (y :: 32 word) + 1 < 2 ^ 32 \<Longrightarrow> unat (y + 1) = unat y + 1"
  by (simp add: unat_word_ariths)

text \<open>
  Claim C5. For every document (of fewer than \<open>2^32\<close> lines, so that the row after \<open>y\<close>
  is an \<open>unsigned\<close>), every row \<open>y\<close> of it and every column \<open>x\<close> up to the length of that
  row, \<open>spLn x y\<close> followed by \<open>jnLn y\<close> is defined and restores the state, hence the
  whole document.
\<close>

theorem spLn_jnLn:
  assumes "length (lines s) < 2 ^ 32"
    and "unat y < length (lines s)" and "unat x \<le> length (lines s ! unat y)"
  shows "jnLn y (spLn x y s) = Some s"
proof -
  define A where "A = take (unat y) (lines s)"
  define B where "B = drop (unat y + 1) (lines s)"
  define l where "l = lines s ! unat y"
  have ls: "lines s = A @ l # B"
    unfolding A_def B_def l_def using assms(2) by (simp add: id_take_nth_drop)
  have lenA: "length A = unat y"
    unfolding A_def using assms(2) by simp
  have y1: "unat (y + 1) = unat y + 1"
    using assms(1,2) by (intro unat_plus_1) simp
  have sp: "spLn x y s = s\<lparr>lines := A @ take (unat x) l # drop (unat x) l # B\<rparr>"
    using assms(3) lenA [symmetric]
    by (simp add: spLn_def insLn_def y1 Let_def ls l_def [symmetric] nth_append)
  have "jnLn y (s\<lparr>lines := A @ take (unat x) l # drop (unat x) l # B\<rparr>)
          = Some (s\<lparr>lines := A @ l # B\<rparr>)"
    using lenA [symmetric] by (simp add: jnLn_def rmLn_def y1 nth_append)
  then show ?thesis
    unfolding sp using ls by simp
qed

theorem spLn_jnLn_witness:
  "lines (spLn 1 0 (melt0\<lparr>lines := [''abc'', ''de'']\<rparr>)) = [''a'', ''bc'', ''de'']
   \<and> jnLn 0 (spLn 1 0 (melt0\<lparr>lines := [''abc'', ''de'']\<rparr>))
       = Some (melt0\<lparr>lines := [''abc'', ''de'']\<rparr>)"
proof -
  have "lines (spLn 1 0 (melt0\<lparr>lines := [''abc'', ''de'']\<rparr>)) = [''a'', ''bc'', ''de'']"
    by (simp add: spLn_def insLn_def)
  moreover have "length (lines (melt0\<lparr>lines := [''abc'', ''de'']\<rparr>)) < 2 ^ 32"
    by simp
  moreover have "unat (0 :: u32) < length (lines (melt0\<lparr>lines := [''abc'', ''de'']\<rparr>))"
    by simp
  moreover have "unat (1 :: u32)
      \<le> length (lines (melt0\<lparr>lines := [''abc'', ''de'']\<rparr>) ! unat (0 :: u32))"
    by simp
  ultimately show ?thesis
    using spLn_jnLn [of "melt0\<lparr>lines := [''abc'', ''de'']\<rparr>" 0 1] by blast
qed

section \<open>Filename validation\<close>

lemma of_char_lt: "(of_char c :: nat) < 256"
proof -
  have "(of_char c :: nat) mod 256 < 256" by simp
  then show ?thesis by (simp only: of_char_mod_256)
qed

lemma of_char_lt_int: "(of_char c :: int) < 256"
proof -
  have "(of_char c :: nat) < 256" by (rule of_char_lt)
  then have "int (of_char c) < 256" by linarith
  then show ?thesis by (simp only: of_nat_of_char)
qed

lemma of_char_toupper:
  "(of_char (toupper c) :: nat) =
     (if 97 \<le> (of_char c :: nat) \<and> (of_char c :: nat) \<le> 122 then of_char c - 32 else of_char c)"
proof -
  have "(of_char c :: nat) < 256" by (rule of_char_lt)
  then have "(of_char c :: nat) - 32 < 256" by linarith
  then have "((of_char c :: nat) - 32) mod 256 = of_char c - 32" by (rule mod_less)
  then show ?thesis by (simp add: toupper_def)
qed

lemma of_char_tolower:
  "(of_char (tolower_ascii c) :: nat) =
     (if 65 \<le> (of_char c :: nat) \<and> (of_char c :: nat) \<le> 90 then of_char c + 32 else of_char c)"
proof (cases "65 \<le> (of_char c :: nat) \<and> (of_char c :: nat) \<le> 90")
  case True
  then have "(of_char c :: nat) + 32 < 256" by linarith
  then have "((of_char c :: nat) + 32) mod 256 = of_char c + 32" by (rule mod_less)
  with True show ?thesis by (simp add: tolower_ascii_def)
next
  case False
  then show ?thesis by (auto simp: tolower_ascii_def)
qed

lemma char_eqI: "(of_char c :: nat) = of_char d \<Longrightarrow> c = d"
  by simp

lemma tolower_toupper: "tolower_ascii (toupper c) = tolower_ascii c"
  by (rule char_eqI) (auto simp: of_char_tolower of_char_toupper)

lemma toupper_tolower: "toupper (tolower_ascii c) = toupper c"
  by (rule char_eqI) (auto simp: of_char_tolower of_char_toupper)

lemma reserved_upper: "r \<in> set reserved \<Longrightarrow> map toupper r = r"
  by (auto simp: reserved_def toupper_def)

lemma upper_in_reserved_iff:
  "map toupper n \<in> set reserved \<longleftrightarrow> (\<exists>r \<in> set reserved. same_ignoring_case n r)"
proof
  assume a: "map toupper n \<in> set reserved"
  have "map tolower_ascii n = map tolower_ascii (map toupper n)"
    by (simp add: tolower_toupper)
  then have "same_ignoring_case n (map toupper n)"
    by (simp only: same_ignoring_case_def)
  with a show "\<exists>r \<in> set reserved. same_ignoring_case n r" by blast
next
  assume "\<exists>r \<in> set reserved. same_ignoring_case n r"
  then obtain r where r: "r \<in> set reserved" and e: "map tolower_ascii n = map tolower_ascii r"
    by (auto simp: same_ignoring_case_def)
  have "map toupper n = map toupper (map tolower_ascii n)"
    by (simp add: toupper_tolower)
  also have "\<dots> = map toupper (map tolower_ascii r)" by (simp only: e)
  also have "\<dots> = map toupper r" by (simp add: toupper_tolower)
  also have "\<dots> = r" by (rule reserved_upper [OF r])
  finally show "map toupper n \<in> set reserved" using r by simp
qed

lemma char_val_lt:
  "char_val sg c < 32 \<longleftrightarrow> (of_char c :: int) < 32 \<or> (sg \<and> 128 \<le> (of_char c :: int))"
proof (cases "sg \<and> 128 \<le> (of_char c :: int)")
  case True
  have "(of_char c :: int) < 256" by (rule of_char_lt_int)
  then have "(of_char c :: int) - 256 < 32" by linarith
  with True show ?thesis by (simp add: char_val_def)
next
  case False
  then show ?thesis by (auto simp: char_val_def)
qed

text \<open>
  How far \<open>valFn\<close> and the specification's rule agree: on every name where plain
  \<open>char\<close> is unsigned, and where it is signed on the names whose bytes are all below
  128. \<open>CON.txt\<close> is rejected and \<open>notes.txt\<close> is accepted either way.
\<close>

theorem valFn_iff:
  "(valFn sg fn \<longleftrightarrow>
      valid_by_spec fn \<and> (sg \<longrightarrow> (\<forall>c \<in> set fn. (of_char c :: int) < 128)))
   \<and> \<not> valFn sg ''CON.txt'' \<and> valFn sg ''notes.txt''"
proof -
  have "valFn sg fn \<longleftrightarrow>
      valid_by_spec fn \<and> (sg \<longrightarrow> (\<forall>c \<in> set fn. (of_char c :: int) < 128))"
    unfolding valFn_def valid_by_spec_def Let_def upper_in_reserved_iff char_val_lt
      MAX_FN_LEN_def
    by (auto simp: not_less not_le)
  moreover have "\<not> valFn sg ''CON.txt''"
    by (simp add: valFn_def char_val_def reserved_def invalid_chars_def toupper_def
          MAX_FN_LEN_def)
  moreover have "valFn sg ''notes.txt''"
    by (simp add: valFn_def char_val_def reserved_def invalid_chars_def toupper_def
          MAX_FN_LEN_def)
  ultimately show ?thesis by blast
qed

theorem valFn_iff_witness:
  "valid_by_spec ''a b.md'' \<and> valFn True ''a b.md'' \<and> \<not> valFn True ''CON.txt''"
proof -
  have v: "valid_by_spec ''a b.md''"
    by code_simp
  have "\<forall>c \<in> set ''a b.md''. (of_char c :: int) < 128"
    by simp
  with v show ?thesis
    using valFn_iff [of True "''a b.md''"] by blast
qed

text \<open>The name \<open>e_acute_txt\<close> meets every condition of the specification's rule: it
  has no control character, its two bytes above 127 are not below 32.\<close>

lemma e_acute_txt_valid_by_spec: "valid_by_spec e_acute_txt"
  by (simp add: e_acute_txt_def valid_by_spec_def reserved_def invalid_chars_def
        same_ignoring_case_def tolower_ascii_def)

text \<open>
  Claim C9. \<open>valFn\<close> tests \<open>c < 32\<close>, the test for a control character, on a plain
  \<open>char\<close>. Where \<open>char\<close> is signed a byte of 128 or more is negative and passes for a
  control character: the name \<open>e_acute_txt\<close>, which the claim accepts, is rejected
  there, and the same source accepts it where \<open>char\<close> is unsigned.
\<close>

theorem valFn_high_byte:
  "\<not> valFn True e_acute_txt \<and> valFn False e_acute_txt"
  by (simp add: e_acute_txt_def valFn_def char_val_def reserved_def invalid_chars_def
        toupper_def MAX_FN_LEN_def)

section \<open>Signed comparisons of small words\<close>

lemma sint_small: "unat (w :: 32 word) < 2 ^ 31 \<Longrightarrow> sint w = int (unat w)"
  using sint_of_nat_small [of "unat w"] by simp

lemma sless0_iff: "((w :: 32 word) <s 0) \<longleftrightarrow> 2 ^ 31 \<le> unat w"
proof
  assume "w <s 0"
  then have neg: "sint w < 0" by (simp add: word_sless_alt)
  show "2 ^ 31 \<le> unat w"
  proof (rule ccontr)
    assume "\<not> 2 ^ 31 \<le> unat w"
    then have "unat w < 2 ^ 31" by simp
    then have "sint w = int (unat w)" by (rule sint_small)
    with neg show False by simp
  qed
next
  assume a: "2 ^ 31 \<le> unat w"
  show "w <s 0"
  proof (rule ccontr)
    assume "\<not> w <s 0"
    then have "0 \<le> sint w" by (simp add: word_sless_alt)
    then have "unat w < 2 ^ 31" by (rule sint_nonneg_unat(2))
    with a show False by simp
  qed
qed

lemma sle0_iff: "(0 \<le>s (w :: 32 word)) \<longleftrightarrow> unat w < 2 ^ 31"
  using sless0_iff [of w] by (auto simp: word_sless_alt word_sle_eq)

lemma sless_small:
  "unat (a :: 32 word) < 2 ^ 31 \<Longrightarrow> unat (b :: 32 word) < 2 ^ 31 \<Longrightarrow> (a <s b) \<longleftrightarrow> unat a < unat b"
  by (simp add: word_sless_alt sint_small word_less_nat_alt flip: word_less_alt)

lemma sle_small:
  "unat (a :: 32 word) < 2 ^ 31 \<Longrightarrow> unat (b :: 32 word) < 2 ^ 31 \<Longrightarrow> (a \<le>s b) \<longleftrightarrow> unat a \<le> unat b"
  by (simp add: word_sle_eq sint_small word_le_nat_alt flip: word_le_def)

lemma sless_neg_small:
  "2 ^ 31 \<le> unat (a :: 32 word) \<Longrightarrow> unat (b :: 32 word) < 2 ^ 31 \<Longrightarrow> a <s b \<and> \<not> b <s a"
proof -
  assume a: "2 ^ 31 \<le> unat a" and b: "unat b < 2 ^ 31"
  from a have "sint a < 0" using sless0_iff [of a] by (simp add: word_sless_alt)
  moreover from b have "0 \<le> sint b" by (simp add: sint_small)
  ultimately show ?thesis by (simp add: word_sless_alt)
qed

lemma unat_of_nat_len: "n < 2 ^ 31 \<Longrightarrow> unat (of_nat n :: 32 word) = n"
  by (simp add: unat_of_nat)

lemma unat_minus_1: "0 < unat (w :: 32 word) \<Longrightarrow> unat (w - 1) = unat w - 1"
  by (metis unat_minus_one unat_0 less_numeral_extra(3))

lemma of_nat_len_minus_1: "0 < n \<Longrightarrow> n < 2 ^ 31 \<Longrightarrow> unat ((of_nat n :: 32 word) - 1) = n - 1"
proof -
  assume a: "0 < n" "n < 2 ^ 31"
  then have "0 < unat (of_nat n :: 32 word)" by (simp add: unat_of_nat_len)
  then have "unat ((of_nat n :: 32 word) - 1) = unat (of_nat n :: 32 word) - 1" by (rule unat_minus_1)
  with a show ?thesis by (simp add: unat_of_nat_len)
qed

lemma clampRow_range:
  assumes "ls \<noteq> []" and "length ls < 2 ^ 31"
  shows "unat (clampRow ls ny) < length ls"
proof -
  have L: "unat (of_nat (length ls) :: 32 word) = length ls"
    using assms(2) by (rule unat_of_nat_len)
  have pos: "0 < length ls" using assms(1) by simp
  show ?thesis
  proof (cases "ny <s 0")
    case True
    then show ?thesis using pos by (simp add: clampRow_def)
  next
    case False
    then have small: "unat ny < 2 ^ 31" by (simp add: sless0_iff)
    show ?thesis
    proof (cases "of_nat (length ls) \<le>s ny")
      case True
      then show ?thesis
        using False pos of_nat_len_minus_1 [OF pos assms(2)] by (simp add: clampRow_def)
    next
      case nle: False
      then have "unat ny < length ls"
        using small assms(2) L by (simp add: sle_small)
      then show ?thesis using False nle by (simp add: clampRow_def)
    qed
  qed
qed


lemma int_sized_nth: "int_sized ls \<Longrightarrow> i < length ls \<Longrightarrow> length (ls ! i) < 2 ^ 31"
  by (simp add: int_sized_def)

lemma at_i_Some: "unat i < length ls \<Longrightarrow> length ls < 2 ^ 31 \<Longrightarrow> at_i ls i = Some (ls ! unat i)"
  by (simp add: at_i_def sle0_iff)

lemma scrollToFit_frame:
  "lines (scrollToFit s) = lines s" "cx (scrollToFit s) = cx s" "cy (scrollToFit s) = cy s"
  "front (scrollToFit s) = front s" "back_buf (scrollToFit s) = back_buf s"
  "fstate (scrollToFit s) = fstate s" "edmode (scrollToFit s) = edmode s"
  "fname (scrollToFit s) = fname s" "smessage (scrollToFit s) = smessage s"
  "cmd (scrollToFit s) = cmd s" "last_cmd (scrollToFit s) = last_cmd s"
  "mx (scrollToFit s) = mx s" "my (scrollToFit s) = my s"
  "ax (scrollToFit s) = ax s" "ay (scrollToFit s) = ay s"
  "is_running (scrollToFit s) = is_running s" "is_ws_changed (scrollToFit s) = is_ws_changed s"
  by (simp_all add: scrollToFit_def fitHorizontal_def fitVertical_def scrollLeft_def
        scrollRight_def scrollUp_def scrollDown_def)

lemma targetCol_Some:
  assumes "length (lines s) < 2 ^ 31" and "unat ny < length (lines s)"
  shows "\<exists>nx'. targetCol s nx ny = Some nx'"
  using assms by (simp add: targetCol_def at_i_Some)

lemma wrapPos_valid:
  assumes sz: "int_sized ls" and ny: "unat ny < length ls"
  shows "\<exists>nx' ny'. wrapPos ls nx ny = Some (nx', ny') \<and> unat ny' < length ls
           \<and> unat nx' \<le> length (ls ! unat ny')"
proof -
  have L: "length ls < 2 ^ 31" using sz by (simp add: int_sized_def)
  have uL: "unat (of_nat (length ls) :: 32 word) = length ls" using L by (rule unat_of_nat_len)
  have nys: "unat ny < 2 ^ 31" using ny L by linarith
  have pos: "0 < length ls" using ny by linarith
  have uL1: "unat ((of_nat (length ls) :: 32 word) - 1) = length ls - 1"
    using pos L by (rule of_nat_len_minus_1)
  show ?thesis
  proof (cases "nx <s 0")
    case neg: True
    show ?thesis
    proof (cases "0 <s ny")
      case True
      then have p: "0 < unat ny" using nys by (simp add: sless_small)
      then have u: "unat (ny - 1) = unat ny - 1" by (rule unat_minus_1)
      then have r: "unat (ny - 1) < length ls" using ny by simp
      have len: "length (ls ! unat (ny - 1)) < 2 ^ 31" using sz r by (rule int_sized_nth)
      have "wrapPos ls nx ny = Some (of_nat (length (ls ! unat (ny - 1))), ny - 1)"
        using neg True by (simp add: wrapPos_def at_i_Some [OF r L])
      moreover have "unat (of_nat (length (ls ! unat (ny - 1))) :: 32 word)
                       = length (ls ! unat (ny - 1))"
        using len by (rule unat_of_nat_len)
      ultimately show ?thesis using r by simp
    next
      case False
      then have "wrapPos ls nx ny = Some (0, ny)" using neg by (simp add: wrapPos_def)
      then show ?thesis using ny by simp
    qed
  next
    case nonneg: False
    then have nxs: "unat nx < 2 ^ 31" by (simp add: sless0_iff)
    have len: "length (ls ! unat ny) < 2 ^ 31" using sz ny by (rule int_sized_nth)
    have ul: "unat (of_nat (length (ls ! unat ny)) :: 32 word) = length (ls ! unat ny)"
      using len by (rule unat_of_nat_len)
    show ?thesis
    proof (cases "of_nat (length (ls ! unat ny)) <s nx")
      case over: True
      show ?thesis
      proof (cases "ny <s of_nat (length ls) - 1")
        case True
        then have "unat ny < length ls - 1"
          using nys uL1 L by (simp add: sless_small)
        then have n1: "unat ny + 1 < length ls" by linarith
        then have "unat ny + 1 < 2 ^ 32" using L by simp
        then have "unat (ny + 1) = unat ny + 1" by (simp add: unat_word_ariths)
        moreover have "wrapPos ls nx ny = Some (0, ny + 1)"
          using nonneg over True by (simp add: wrapPos_def at_i_Some [OF ny L])
        ultimately show ?thesis using n1 by simp
      next
        case False
        then have "wrapPos ls nx ny = Some (0, ny)"
          using nonneg over by (simp add: wrapPos_def at_i_Some [OF ny L])
        then show ?thesis using ny by simp
      qed
    next
      case False
      then have "unat nx \<le> length (ls ! unat ny)"
        using nxs ul len by (simp add: sless_small)
      moreover have "wrapPos ls nx ny = Some (nx, ny)"
        using nonneg False by (simp add: wrapPos_def at_i_Some [OF ny L])
      ultimately show ?thesis using ny by simp
    qed
  qed
qed

section \<open>Cursor moves\<close>

lemma mvCursor_resolves:
  assumes "lines s \<noteq> []" and "int_sized (lines s)"
  shows "\<exists>nx ny. mvCursor xd yd s = Some (scrollToFit (s\<lparr>cx := nx, cy := ny\<rparr>))
           \<and> unat ny < length (lines s) \<and> unat nx \<le> length (lines s ! unat ny)"
proof -
  have L: "length (lines s) < 2 ^ 31" using assms(2) by (simp add: int_sized_def)
  let ?ny = "clampRow (lines s) (cy s + yd)"
  have r: "unat ?ny < length (lines s)" using assms(1) L by (rule clampRow_range)
  obtain nx where t: "targetCol s (cx s + xd) ?ny = Some nx"
    using targetCol_Some [OF L r] by blast
  obtain nx' ny' where w: "wrapPos (lines s) nx ?ny = Some (nx', ny')"
    and v: "unat ny' < length (lines s)" "unat nx' \<le> length (lines s ! unat ny')"
    using wrapPos_valid [OF assms(2) r] by blast
  have "mvCursor xd yd s = Some (scrollToFit (s\<lparr>cx := nx', cy := ny'\<rparr>))"
    using t w by (simp add: mvCursor_def mvTarget_def Let_def)
  then show ?thesis using v by blast
qed

text \<open>
  Claim C2. For every document with at least one line (whose sizes the \<open>int\<close> casts of
  \<open>mvCursor\<close> represent), every starting cursor position and every displacement,
  \<open>mvCursor\<close> is defined, leaves the document unchanged and ends with the cursor on a
  row of the document, at a column between 0 and the length of that row.
\<close>

theorem mvCursor_valid:
  assumes "lines s \<noteq> []" and "int_sized (lines s)"
  shows "\<exists>s'. mvCursor xd yd s = Some s' \<and> lines s' = lines s
           \<and> unat (cy s') < length (lines s')
           \<and> unat (cx s') \<le> length (lines s' ! unat (cy s'))"
proof -
  obtain nx ny where mv: "mvCursor xd yd s = Some (scrollToFit (s\<lparr>cx := nx, cy := ny\<rparr>))"
    and v: "unat ny < length (lines s)" "unat nx \<le> length (lines s ! unat ny)"
    using mvCursor_resolves [OF assms] by blast
  let ?s' = "scrollToFit (s\<lparr>cx := nx, cy := ny\<rparr>)"
  have "lines ?s' = lines s" "cx ?s' = nx" "cy ?s' = ny"
    by (simp_all add: scrollToFit_frame)
  with mv v show ?thesis by simp
qed

theorem mvCursor_valid_witness:
  "\<exists>s'. mvCursor 7 (- 1) (melt0\<lparr>lines := [''ab'', ''cde''], cx := 3, cy := 1\<rparr>) = Some s'
      \<and> lines s' = [''ab'', ''cde'']
      \<and> unat (cy s') < length (lines s')
      \<and> unat (cx s') \<le> length (lines s' ! unat (cy s'))"
proof -
  have "lines (melt0\<lparr>lines := [''ab'', ''cde''], cx := 3, cy := 1\<rparr>) \<noteq> []"
    by simp
  moreover have "int_sized (lines (melt0\<lparr>lines := [''ab'', ''cde''], cx := 3, cy := 1\<rparr>))"
    by (simp add: int_sized_def)
  ultimately show ?thesis
    using mvCursor_valid [of "melt0\<lparr>lines := [''ab'', ''cde''], cx := 3, cy := 1\<rparr>" 7 "- 1"]
    by simp
qed

text \<open>
  Claim C8, amended. When the column resolved by the first two steps of \<open>mvCursor\<close>
  (\<open>mvTarget\<close>) exceeds the length of the target row, the cursor goes to column 0: of
  the next row if the target row is not the last one, and of the same row if it is
  the last one.
\<close>

theorem mvCursor_past_end:
  assumes "lines s \<noteq> []" and "int_sized (lines s)"
    and "mvTarget xd yd s = Some (nx, ny)"
    and "int (length (lines s ! unat ny)) < sint nx"
  shows "\<exists>s'. mvCursor xd yd s = Some s' \<and> cx s' = 0
           \<and> unat (cy s') = (if unat ny + 1 < length (lines s) then unat ny + 1 else unat ny)"
proof -
  let ?ls = "lines s"
  have L: "length ?ls < 2 ^ 31" using assms(2) by (simp add: int_sized_def)
  have nyd: "ny = clampRow ?ls (cy s + yd)"
    using assms(3) by (auto simp: mvTarget_def Let_def split: bind_splits)
  have ny: "unat ny < length ?ls" unfolding nyd using assms(1) L by (rule clampRow_range)
  have nys: "unat ny < 2 ^ 31" using ny L by linarith
  have pos: "0 < length ?ls" using ny by linarith
  have uL1: "unat ((of_nat (length ?ls) :: 32 word) - 1) = length ?ls - 1"
    using pos L by (rule of_nat_len_minus_1)
  have len: "length (?ls ! unat ny) < 2 ^ 31" using assms(2) ny by (rule int_sized_nth)
  have nonneg: "\<not> nx <s 0" using assms(4) by (simp add: word_sless_alt)
  have over: "of_nat (length (?ls ! unat ny)) <s nx"
    using assms(4) len by (simp add: word_sless_alt sint_of_nat_small)
  show ?thesis
  proof (cases "ny <s of_nat (length ?ls) - 1")
    case True
    then have "unat ny < length ?ls - 1"
      using nys uL1 L by (simp add: sless_small)
    then have n1: "unat ny + 1 < length ?ls" by linarith
    then have "unat ny + 1 < 2 ^ 32" using L by simp
    then have u: "unat (ny + 1) = unat ny + 1" by (simp add: unat_word_ariths)
    have "wrapPos ?ls nx ny = Some (0, ny + 1)"
      using nonneg over True by (simp add: wrapPos_def at_i_Some [OF ny L])
    then have "mvCursor xd yd s = Some (scrollToFit (s\<lparr>cx := 0, cy := ny + 1\<rparr>))"
      using assms(3) by (simp add: mvCursor_def)
    then show ?thesis using n1 u by (simp add: scrollToFit_frame)
  next
    case False
    then have "\<not> unat ny < length ?ls - 1"
      using nys uL1 L by (simp add: sless_small)
    then have n1: "\<not> unat ny + 1 < length ?ls" by linarith
    have "wrapPos ?ls nx ny = Some (0, ny)"
      using nonneg over False by (simp add: wrapPos_def at_i_Some [OF ny L])
    then have "mvCursor xd yd s = Some (scrollToFit (s\<lparr>cx := 0, cy := ny\<rparr>))"
      using assms(3) by (simp add: mvCursor_def)
    then show ?thesis using n1 by (simp add: scrollToFit_frame)
  qed
qed

theorem mvCursor_past_end_witness:
  "\<exists>s'. mvCursor 1 0 (melt0\<lparr>lines := [''ab'', ''c''], cx := 2\<rparr>) = Some s' \<and> cx s' = 0
      \<and> unat (cy s') = 1"
proof -
  have a: "lines (melt0\<lparr>lines := [''ab'', ''c''], cx := 2\<rparr>) \<noteq> []"
    by simp
  have b: "int_sized (lines (melt0\<lparr>lines := [''ab'', ''c''], cx := 2\<rparr>))"
    by (simp add: int_sized_def)
  have c: "mvTarget 1 0 (melt0\<lparr>lines := [''ab'', ''c''], cx := 2\<rparr>) = Some (3, 0)"
    by (simp add: mvTarget_def clampRow_def targetCol_def melt0_def word_sless_alt
          word_sle_eq)
  have d: "int (length (lines (melt0\<lparr>lines := [''ab'', ''c''], cx := 2\<rparr>) ! unat (0 :: i32)))
             < sint (3 :: i32)"
    by simp
  show ?thesis
    using mvCursor_past_end [OF a b c d] by simp
qed

text \<open>The claim as stated fails on the last row: in the one-line document \<open>ab\<close> with
  the cursor at column 2, a move by one column resolves to column 3 of row 0, which
  exceeds the length 2, and the cursor ends at column 0 of row 0, neither left at 3
  nor clamped to 2.\<close>

theorem mvCursor_last_row_counterexample:
  "length (lines (melt0\<lparr>lines := [''ab''], cx := 2\<rparr>)) = 1
   \<and> mvTarget 1 0 (melt0\<lparr>lines := [''ab''], cx := 2\<rparr>) = Some (3, 0)
   \<and> map_option (\<lambda>s. (cx s, cy s)) (mvCursor 1 0 (melt0\<lparr>lines := [''ab''], cx := 2\<rparr>))
       = Some (0, 0)"
proof -
  have t: "mvTarget 1 0 (melt0\<lparr>lines := [''ab''], cx := 2\<rparr>) = Some (3, 0)"
    by (simp add: mvTarget_def clampRow_def targetCol_def melt0_def word_sless_alt
          word_sle_eq)
  have "map_option (\<lambda>s. (cx s, cy s)) (mvCursor 1 0 (melt0\<lparr>lines := [''ab''], cx := 2\<rparr>))
          = Some (0, 0)"
    by (simp add: mvCursor_def t wrapPos_def at_i_def scrollToFit_frame word_sless_alt
          word_sle_eq)
  with t show ?thesis by simp
qed

section \<open>Auto-scroll\<close>

lemma fitHorizontal_frame:
  "lines (fitHorizontal s) = lines s" "cx (fitHorizontal s) = cx s" "cy (fitHorizontal s) = cy s"
  "oy (fitHorizontal s) = oy s" "ax (fitHorizontal s) = ax s" "ay (fitHorizontal s) = ay s"
  "front (fitHorizontal s) = front s"
  by (simp_all add: fitHorizontal_def scrollLeft_def scrollRight_def)

lemma fitVertical_frame:
  "lines (fitVertical s) = lines s" "cx (fitVertical s) = cx s" "cy (fitVertical s) = cy s"
  "ox (fitVertical s) = ox s" "ax (fitVertical s) = ax s" "ay (fitVertical s) = ay s"
  "front (fitVertical s) = front s"
  by (simp_all add: fitVertical_def scrollUp_def scrollDown_def)

lemma unat_add_small:
  "unat (a :: 32 word) + unat (b :: 32 word) < 2 ^ 32 \<Longrightarrow> unat (a + b) = unat a + unat b"
  by (simp add: unat_word_ariths)

lemma unat_diff: "(b :: 32 word) \<le> a \<Longrightarrow> unat (a - b) = unat a - unat b"
  by (rule unat_sub)

lemma unat_lt32: "unat (w :: 32 word) < 2 ^ 32"
  using unsigned_less [of w, where 'a = nat] by simp

lemma fitVertical_in_view:
  assumes row: "unat (cy s) < length (lines s)"
    and h: "1 \<le> unat (ay s)"
    and nowrap: "unat (oy s) + unat (ay s) < 2 ^ 32"
  shows "in_view_y (fitVertical s)"
proof (cases "cy s < oy s")
  case True
  then have le: "oy s - cy s \<le> oy s"
    by (simp add: word_le_nat_alt word_less_nat_alt unat_sub)
  have "unat (oy s - (oy s - cy s)) = unat (cy s)"
    using True by (simp add: word_less_nat_alt unat_sub word_le_nat_alt)
  then show ?thesis
    using True le h by (simp add: fitVertical_def scrollUp_def in_view_y_def)
next
  case above: False
  then have lo: "unat (oy s) \<le> unat (cy s)" by (simp add: word_less_nat_alt)
  have sum: "unat (oy s + ay s) = unat (oy s) + unat (ay s)"
    using nowrap by (rule unat_add_small)
  show ?thesis
  proof (cases "oy s + ay s \<le> cy s")
    case True
    then have ge: "unat (oy s) + unat (ay s) \<le> unat (cy s)"
      using sum by (simp add: word_le_nat_alt)
    have d0: "unat (cy s - (oy s + ay s)) = unat (cy s) - (unat (oy s) + unat (ay s))"
      using True sum by (simp add: unat_sub)
    have c32: "unat (cy s) < 2 ^ 32" by (rule unat_lt32)
    define D where "D = cy s - (oy s + ay s) + 1"
    have "unat (cy s - (oy s + ay s)) + unat (1 :: 32 word) < 2 ^ 32"
      using d0 c32 h ge by simp
    then have "unat (cy s - (oy s + ay s) + 1) = unat (cy s - (oy s + ay s)) + unat (1 :: 32 word)"
      by (rule unat_add_small)
    then have d: "unat D = unat (cy s) - (unat (oy s) + unat (ay s)) + 1"
      unfolding D_def using d0 by simp
    have "unat (oy s) + unat D < 2 ^ 32"
      using d c32 h ge by simp
    then have "unat (oy s + D) = unat (oy s) + unat D"
      by (rule unat_add_small)
    then have o: "unat (oy s + D) = unat (cy s) - unat (ay s) + 1"
      using d ge by simp
    then have "unat (oy s + D) < length (lines s)"
      using row h ge by simp
    then have "fitVertical s = s\<lparr>oy := oy s + D\<rparr>"
      using above True unfolding D_def by (simp add: fitVertical_def scrollDown_def)
    then show ?thesis using o h ge by (simp add: in_view_y_def)
  next
    case False
    then have "unat (cy s) < unat (oy s) + unat (ay s)"
      using sum by (simp add: word_le_nat_alt)
    then show ?thesis
      using above False lo by (simp add: fitVertical_def in_view_y_def)
  qed
qed



lemma visualLength_loop_ge_length: "n + length cs \<le> visualLength_loop n cs"
proof (induction cs arbitrary: n)
  case Nil
  then show ?case by simp
next
  case (Cons c cs)
  have t: "n + 1 \<le> n + (tab_width - n mod tab_width)"
    by (simp add: tab_width_def) 
  have "n + (tab_width - n mod tab_width) + length cs
          \<le> visualLength_loop (n + (tab_width - n mod tab_width)) cs"
    by (rule Cons.IH)
  moreover have "n + 1 + length cs \<le> visualLength_loop (n + 1) cs"
    by (rule Cons.IH)
  ultimately show ?case using t by (simp del: One_nat_def add_Suc_right) linarith
qed

lemma visualLength_ge_length: "length l \<le> visualLength l"
  using visualLength_loop_ge_length [of 0 l] by (simp add: visualLength_def)

lemma smax_of_nat:
  assumes "a < 2 ^ 31" and "b < 2 ^ 31"
  shows "smax (of_nat a) (of_nat b :: 32 word) = of_nat (max a b)"
proof -
  have "((of_nat a :: 32 word) <s of_nat b) = (a < b)"
    using assms by (simp add: word_sless_alt sint_of_nat_small)
  then show ?thesis by (simp add: smax_def max_def)
qed

lemma foldl_smax:
  assumes "m < 2 ^ 31" and "\<forall>i \<in> set js. f i < 2 ^ 31"
  shows "foldl (\<lambda>m i. smax m (of_nat (f i))) (of_nat m :: 32 word) js
           = of_nat (foldl (\<lambda>m i. max m (f i)) m js)"
  using assms
proof (induction js arbitrary: m)
  case Nil
  then show ?case by simp
next
  case (Cons j js)
  have fj: "f j < 2 ^ 31" using Cons.prems(2) by simp
  have mx: "max m (f j) < 2 ^ 31" using Cons.prems(1) fj by simp
  have rest: "\<forall>i \<in> set js. f i < 2 ^ 31" using Cons.prems(2) by simp
  show ?case
    using Cons.IH [OF mx rest] by (simp add: smax_of_nat [OF Cons.prems(1) fj])
qed

lemma foldl_max_ge_init: "m \<le> foldl (\<lambda>m i. max m ((f :: nat \<Rightarrow> nat) i)) m js"
proof (induction js arbitrary: m)
  case Nil
  then show ?case by simp
next
  case (Cons j js)
  have "max m (f j) \<le> foldl (\<lambda>m i. max m (f i)) (max m (f j)) js" by (rule Cons.IH)
  then show ?case by simp
qed

lemma foldl_max_ge: "j \<in> set js \<Longrightarrow> f j \<le> foldl (\<lambda>m i. max m ((f :: nat \<Rightarrow> nat) i)) m js"
proof (induction js arbitrary: m)
  case Nil
  then show ?case by simp
next
  case (Cons k js)
  show ?case
  proof (cases "j = k")
    case True
    have "max m (f k) \<le> foldl (\<lambda>m i. max m (f i)) (max m (f k)) js"
      by (rule foldl_max_ge_init)
    then show ?thesis using True by simp
  next
    case False
    then have "j \<in> set js" using Cons.prems by simp
    then have "f j \<le> foldl (\<lambda>m i. max m (f i)) (max m (f k)) js" by (rule Cons.IH)
    then show ?thesis by simp
  qed
qed

lemma foldl_max_bound:
  "m < B \<Longrightarrow> \<forall>i \<in> set js. f i < B \<Longrightarrow> foldl (\<lambda>m i. max m ((f :: nat \<Rightarrow> nat) i)) m js < B"
proof (induction js arbitrary: m)
  case Nil
  then show ?case by simp
next
  case (Cons k js)
  have "max m (f k) < B" using Cons.prems by simp
  moreover have "\<forall>i \<in> set js. f i < B" using Cons.prems by simp
  ultimately have "foldl (\<lambda>m i. max m (f i)) (max m (f k)) js < B" by (rule Cons.IH)
  then show ?case by simp
qed

lemma max_length_ge:
  assumes vis: "\<forall>l \<in> set (lines s). visualLength l < 2 ^ 31"
    and lo: "unat (oy s) \<le> r" and hi: "r < unat (oy s) + length (front s)"
    and row: "r < length (lines s)"
  shows "visualLength (lines s ! r) \<le> unat (max_length s)"
proof -
  let ?f = "\<lambda>i. visualLength (lines s ! (i + unat (oy s)))"
  let ?js = "[0 ..< min (length (front s)) (length (lines s) - unat (oy s))]"
  have small: "\<forall>i \<in> set ?js. ?f i < 2 ^ 31"
    using vis by auto
  have "max_length s = foldl (\<lambda>m i. smax m (of_nat (?f i))) (of_nat 0) ?js"
    by (simp add: max_length_def)
  also have "\<dots> = of_nat (foldl (\<lambda>m i. max m (?f i)) 0 ?js)"
    using small by (intro foldl_smax) simp_all
  finally have m: "max_length s = of_nat (foldl (\<lambda>m i. max m (?f i)) 0 ?js)" .
  have "foldl (\<lambda>m i. max m (?f i)) 0 ?js < 2 ^ 31"
    using small by (intro foldl_max_bound) simp_all
  then have u: "unat (max_length s) = foldl (\<lambda>m i. max m (?f i)) 0 ?js"
    unfolding m by (simp add: unat_of_nat)
  have "r - unat (oy s) \<in> set ?js" using lo hi row by auto
  then have "?f (r - unat (oy s)) \<le> foldl (\<lambda>m i. max m (?f i)) 0 ?js"
    by (rule foldl_max_ge)
  then show ?thesis using u lo by simp
qed


lemma fitHorizontal_in_view:
  assumes col: "unat (cx s) \<le> length (lines s ! unat (cy s))"
    and row: "unat (cy s) < length (lines s)"
    and vis: "\<forall>l \<in> set (lines s). visualLength l < 2 ^ 31"
    and w: "2 \<le> unat (ax s)"
    and nowrap: "unat (ox s) + unat (ax s) < 2 ^ 32"
    and guard: "unat (cx s) < unat (ox s) + unat (ax s)
                \<or> (unat (oy s) \<le> unat (cy s) \<and> unat (cy s) < unat (oy s) + length (front s))"
  shows "in_view_x (fitHorizontal s)"
proof (cases "cx s < ox s")
  case True
  then have le: "ox s - cx s \<le> ox s"
    by (simp add: word_le_nat_alt word_less_nat_alt unat_sub)
  have "unat (ox s - (ox s - cx s)) = unat (cx s)"
    using True by (simp add: word_less_nat_alt unat_sub word_le_nat_alt)
  then show ?thesis
    using True le w by (simp add: fitHorizontal_def scrollLeft_def in_view_x_def)
next
  case right: False
  then have lo: "unat (ox s) \<le> unat (cx s)" by (simp add: word_less_nat_alt)
  have sum: "unat (ox s + ax s) = unat (ox s) + unat (ax s)"
    using nowrap by (rule unat_add_small)
  show ?thesis
  proof (cases "ox s + ax s \<le> cx s")
    case True
    then have ge: "unat (ox s) + unat (ax s) \<le> unat (cx s)"
      using sum by (simp add: word_le_nat_alt)
    then have visible: "unat (oy s) \<le> unat (cy s)" "unat (cy s) < unat (oy s) + length (front s)"
      using guard by simp_all
    then have fr: "front s \<noteq> []" by auto
    define D where "D = cx s - (ox s + ax s) + 1"
    have d0: "unat (cx s - (ox s + ax s)) = unat (cx s) - (unat (ox s) + unat (ax s))"
      using True sum by (simp add: unat_sub)
    have c32: "unat (cx s) < 2 ^ 32" by (rule unat_lt32)
    have "unat (cx s - (ox s + ax s)) + unat (1 :: 32 word) < 2 ^ 32"
      using d0 c32 w ge by simp
    then have "unat (cx s - (ox s + ax s) + 1) = unat (cx s - (ox s + ax s)) + unat (1 :: 32 word)"
      by (rule unat_add_small)
    then have d: "unat D = unat (cx s) - (unat (ox s) + unat (ax s)) + 1"
      unfolding D_def using d0 by simp
    have "unat (ox s) + unat D < 2 ^ 32"
      using d c32 w ge by simp
    then have "unat (ox s + D) = unat (ox s) + unat D"
      by (rule unat_add_small)
    then have o: "unat (ox s + D) = unat (cx s) - unat (ax s) + 1"
      using d ge by simp
    have "visualLength (lines s ! unat (cy s)) \<le> unat (max_length s)"
      using vis visible row by (rule max_length_ge)
    moreover have "length (lines s ! unat (cy s)) \<le> visualLength (lines s ! unat (cy s))"
      by (rule visualLength_ge_length)
    ultimately have "unat (cx s) \<le> unat (max_length s)" using col by linarith
    then have "unat (ox s + D) < unat (max_length s)" using o w ge by simp
    then have "ox s + D < max_length s" by (simp add: word_less_nat_alt)
    then have "fitHorizontal s = s\<lparr>ox := ox s + D\<rparr>"
      using right True fr unfolding D_def by (simp add: fitHorizontal_def scrollRight_def)
    then show ?thesis using o w ge by (simp add: in_view_x_def)
  next
    case False
    then have "unat (cx s) < unat (ox s) + unat (ax s)"
      using sum by (simp add: word_le_nat_alt)
    then show ?thesis
      using right False lo by (simp add: fitHorizontal_def in_view_x_def)
  qed
qed

lemma in_view_x_fitVertical: "in_view_x (fitVertical s) = in_view_x s"
  by (simp add: in_view_x_def fitVertical_frame)

lemma mvCursor_frame:
  assumes "mvCursor xd yd s = Some s'"
  shows "lines s' = lines s" "front s' = front s" "ax s' = ax s" "ay s' = ay s"
  using assms
  by (auto simp: mvCursor_def scrollToFit_def fitHorizontal_frame fitVertical_frame
       split: bind_splits)

text \<open>
  Where the auto-scroll of \<open>mvCursor\<close> succeeds. On a viewport of at least 2 columns
  and 1 row whose bounds do not wrap, the cursor ends inside the viewport
  vertically. It ends inside horizontally as well whenever the new column needs no
  scroll to the right (it is left of the old right edge) or the new row is one of
  the rows that were visible before the move, the rows that \<open>scrollRight\<close> measures.
\<close>

theorem mvCursor_in_viewport:
  assumes doc: "lines s \<noteq> []" "int_sized (lines s)"
    and vis: "\<forall>l \<in> set (lines s). visualLength l < 2 ^ 31"
    and size: "2 \<le> unat (ax s)" "1 \<le> unat (ay s)"
    and nowrap: "unat (ox s) + unat (ax s) < 2 ^ 32" "unat (oy s) + unat (ay s) < 2 ^ 32"
    and mv: "mvCursor xd yd s = Some s'"
  shows "in_view_y s'
         \<and> (unat (cx s') < unat (ox s) + unat (ax s)
              \<or> (unat (oy s) \<le> unat (cy s') \<and> unat (cy s') < unat (oy s) + length (front s))
             \<longrightarrow> in_viewport s')"
proof -
  obtain nx ny where "mvCursor xd yd s = Some (scrollToFit (s\<lparr>cx := nx, cy := ny\<rparr>))"
    and valid: "unat ny < length (lines s)" "unat nx \<le> length (lines s ! unat ny)"
    using mvCursor_resolves [OF doc] by blast
  then have s': "s' = scrollToFit (s\<lparr>cx := nx, cy := ny\<rparr>)"
    using mv by simp
  let ?t = "s\<lparr>cx := nx, cy := ny\<rparr>"
  have c: "cx s' = nx" "cy s' = ny" unfolding s' by (simp_all add: scrollToFit_frame)
  have y: "in_view_y (fitVertical (fitHorizontal ?t))"
    using valid(1) size(2) nowrap(2) by (intro fitVertical_in_view) (simp_all add: fitHorizontal_frame)
  have x: "in_view_x (fitHorizontal ?t)"
    if "unat nx < unat (ox s) + unat (ax s)
        \<or> (unat (oy s) \<le> unat ny \<and> unat ny < unat (oy s) + length (front s))"
    using valid vis size(1) nowrap(1) that by (intro fitHorizontal_in_view) simp_all
  show ?thesis
    using x y unfolding s' c [unfolded s'] in_viewport_def scrollToFit_def in_view_x_fitVertical
    by (simp add: fitHorizontal_frame fitVertical_frame)
qed

theorem mvCursor_in_viewport_witness:
  "\<exists>s'. mvCursor 1 0 (melt0\<lparr>lines := [''abc''], front := [[]], ax := 2, ay := 1, cx := 1\<rparr>)
           = Some s'
      \<and> cx s' = 2 \<and> ox s' = 1 \<and> in_viewport s'"
proof -
  let ?s = "melt0\<lparr>lines := [''abc''], front := [[]], ax := 2, ay := 1, cx := 1\<rparr>"
  have "map_option (\<lambda>s. (cx s, cy s, ox s)) (mvCursor 1 0 ?s) = Some (2, 0, 1)"
    by code_simp
  then obtain s' where mv: "mvCursor 1 0 ?s = Some s'"
    and c: "cx s' = 2" "cy s' = 0" "ox s' = 1"
    by auto
  have doc: "lines ?s \<noteq> []" "int_sized (lines ?s)"
    by (simp_all add: int_sized_def)
  have "visualLength ''abc'' = 3" by code_simp
  then have vis: "\<forall>l \<in> set (lines ?s). visualLength l < 2 ^ 31" by simp
  have size: "2 \<le> unat (ax ?s)" "1 \<le> unat (ay ?s)" by simp_all
  have nowrap: "unat (ox ?s) + unat (ax ?s) < 2 ^ 32" "unat (oy ?s) + unat (ay ?s) < 2 ^ 32"
    by (simp_all add: melt0_def)
  have "unat (oy ?s) \<le> unat (cy s') \<and> unat (cy s') < unat (oy ?s) + length (front ?s)"
    using c by (simp add: melt0_def)
  then have "in_viewport s'"
    using mvCursor_in_viewport [OF doc vis size nowrap mv] by blast
  with mv c show ?thesis by simp
qed

text \<open>\<open>wide_state\<close> has its cursor inside the viewport; when the terminal shrinks to 40
  columns and 14 rows, \<open>update\<close> and \<open>render\<close> give \<open>resized_state\<close>.\<close>

lemma resized_state_arises:
  "in_viewport wide_state
   \<and> map_option (map_sum id render) (update 14 40 wide_state) = Some (Inr resized_state)"
proof -
  have "in_viewport wide_state"
    by code_simp
  moreover have
    "map_option (map_sum id render) (update 14 40 wide_state) = Some (Inr resized_state)"
    by code_simp
  ultimately show ?thesis by blast
qed

text \<open>
  Claim C3. In \<open>resized_state\<close> the left-arrow key calls \<open>mvCursor(-1, 0)\<close>. The cursor
  moves to column 44 of row 12; \<open>scrollToFit\<close> asks \<open>scrollRight\<close> for the 5 columns
  that are missing, and \<open>scrollRight\<close> refuses, because it measures the rows 0 to 11
  that were visible before the move, all empty, and the vertical scroll to row 12
  comes after it in the same call. The cursor is left right of the viewport
  \<open>[0, 40)\<close>. A second left-arrow key measures row 12 and brings the cursor back into
  the viewport.
\<close>

theorem mvCursor_after_resize:
  "map_option (\<lambda>s. (cx s, cy s, ox s, oy s, ax s, ay s, in_viewport s))
     (mvCursor (- 1) 0 resized_state) = Some (44, 12, 0, 1, 40, 12, False)
   \<and> map_option (\<lambda>s. (cx s, cy s, ox s, oy s, ax s, ay s, in_viewport s))
       (Option.bind (mvCursor (- 1) 0 resized_state) (mvCursor (- 1) 0))
     = Some (43, 12, 4, 1, 40, 12, True)"
proof -
  have "map_option (\<lambda>s. (cx s, cy s, ox s, oy s, ax s, ay s, in_viewport s))
        (mvCursor (- 1) 0 resized_state) = Some (44, 12, 0, 1, 40, 12, False)"
    by code_simp
  moreover have "map_option (\<lambda>s. (cx s, cy s, ox s, oy s, ax s, ay s, in_viewport s))
       (Option.bind (mvCursor (- 1) 0 resized_state) (mvCursor (- 1) 0))
     = Some (43, 12, 4, 1, 40, 12, True)"
    by code_simp
  ultimately show ?thesis by blast
qed

section \<open>The command interpreter\<close>

lemma mvCursor_result:
  "mvCursor xd yd s = Some s' \<Longrightarrow> \<exists>nx ny. s' = scrollToFit (s\<lparr>cx := nx, cy := ny\<rparr>)"
proof -
  assume "mvCursor xd yd s = Some s'"
  then obtain nx ny where "s' = scrollToFit (s\<lparr>cx := nx, cy := ny\<rparr>)"
    by (auto simp: mvCursor_def split: bind_splits)
  then show ?thesis by blast
qed

lemma mvCursor_keeps:
  assumes "mvCursor xd yd s = Some s'"
  shows "cmd s' = cmd s" "last_cmd s' = last_cmd s" "fname s' = fname s"
    "smessage s' = smessage s" "fstate s' = fstate s" "edmode s' = edmode s"
    "is_running s' = is_running s"
  using mvCursor_result [OF assms] by (auto simp: scrollToFit_frame)

lemma confirmWrite_keeps:
  "lines (confirmWrite env fn s) = lines s" "cmd (confirmWrite env fn s) = cmd s"
  "last_cmd (confirmWrite env fn s) = last_cmd s" "cx (confirmWrite env fn s) = cx s"
  "cy (confirmWrite env fn s) = cy s"
  by (simp_all add: confirmWrite_def split: option.splits)

lemma promptLoop_keeps:
  "promptLoop env fn s inp = Some w' \<Longrightarrow>
     lines (fst w') = lines s \<and> cmd (fst w') = cmd s \<and> last_cmd (fst w') = last_cmd s
     \<and> cx (fst w') = cx s \<and> cy (fst w') = cy s"
proof (induction env fn s inp rule: promptLoop.induct)
  case (1 env fn s)
  then show ?case by simp
next
  case (2 env fn s k inp)
  then show ?case
    by (auto simp: Let_def confirmWrite_keeps split: if_splits)
qed

lemma cmdStep_cmd:
  assumes "\<And>v v'. replay v = Some v' \<Longrightarrow> cmd (fst v') = cmd (fst v)"
    and "cmdStep env replay ch w = Some (b, w')"
  shows "cmd (fst w') = cmd (fst w)"
  using assms(2) assms(1) [of w]
  by (auto simp: cmdStep_def Let_def rmLn_def dest!: promptLoop_keeps mvCursor_keeps(1)
       split: if_splits option.splits)

lemma cmdStep_known:
  assumes "ch \<in> known" and "cmdStep env replay ch w = Some (b, w')"
  shows "\<not> b"
  using assms by (auto simp: cmdStep_def Let_def known_def split: if_splits)

lemma cmdStep_plain:
  assumes "ch \<in> plain" and "cmdStep env replay ch w = Some (b, w')"
  shows "\<not> b \<and> last_cmd (fst w') = last_cmd (fst w)"
  using assms
  by (auto simp: cmdStep_def Let_def plain_def rmLn_def
       dest!: promptLoop_keeps mvCursor_keeps(2) split: if_splits option.splits)

lemma cmdStep_unknown:
  assumes "ch \<notin> known"
  shows "cmdStep env replay ch w
           = Some (True, (fst w)\<lparr>smessage := ''Unknown command: '' @ [ch]\<rparr>, snd w)"
  using assms by (simp add: cmdStep_def Let_def known_def)

lemma cmdLoop_cmd:
  assumes "\<And>v v'. replay v = Some v' \<Longrightarrow> cmd (fst v') = cmd (fst v)"
  shows "cmdLoop (cmdStep env replay) c w = Some (b, w') \<Longrightarrow> cmd (fst w') = cmd (fst w)"
proof (induction c arbitrary: w)
  case Nil
  then show ?case by simp
next
  case (Cons ch c)
  from Cons.prems obtain b1 w1 where st: "cmdStep env replay ch w = Some (b1, w1)"
    by (auto split: option.splits)
  have c1: "cmd (fst w1) = cmd (fst w)" using assms st by (rule cmdStep_cmd)
  show ?case
  proof (cases b1)
    case True
    then show ?thesis using Cons.prems st c1 by simp
  next
    case False
    then have "cmdLoop (cmdStep env replay) c w1 = Some (b, w')"
      using Cons.prems st by simp
    then have "cmd (fst w') = cmd (fst w1)" by (rule Cons.IH)
    then show ?thesis using c1 by simp
  qed
qed

lemma cmdLoop_known:
  "set c \<subseteq> known \<Longrightarrow> cmdLoop (cmdStep env replay) c w = Some (b, w') \<Longrightarrow> \<not> b"
proof (induction c arbitrary: w)
  case Nil
  then show ?case by simp
next
  case (Cons ch c)
  from Cons.prems(2) obtain b1 w1 where st: "cmdStep env replay ch w = Some (b1, w1)"
    by (auto split: option.splits)
  have "ch \<in> known" using Cons.prems(1) by simp
  then have nb: "\<not> b1" using st by (rule cmdStep_known)
  then have "cmdLoop (cmdStep env replay) c w1 = Some (b, w')"
    using Cons.prems(2) st by simp
  moreover have "set c \<subseteq> known" using Cons.prems(1) by simp
  ultimately show ?case by (rule Cons.IH [rotated])
qed

lemma cmdLoop_abort:
  assumes "set pre \<subseteq> plain" and "x \<notin> known"
  shows "cmdLoop (cmdStep env replay) (pre @ x # rest) w = Some (b, w') \<Longrightarrow>
           b \<and> last_cmd (fst w') = last_cmd (fst w)
             \<and> smessage (fst w') = ''Unknown command: '' @ [x]"
  using assms(1)
proof (induction pre arbitrary: w)
  case Nil
  then show ?case using cmdStep_unknown [OF assms(2)] by auto
next
  case (Cons ch pre)
  from Cons.prems(1) obtain b1 w1 where st: "cmdStep env replay ch w = Some (b1, w1)"
    by (auto split: option.splits)
  have "ch \<in> plain" using Cons.prems(2) by simp
  then have p: "\<not> b1 \<and> last_cmd (fst w1) = last_cmd (fst w)" using st by (rule cmdStep_plain)
  then have "cmdLoop (cmdStep env replay) (pre @ x # rest) w1 = Some (b, w')"
    using Cons.prems(1) st by simp
  moreover have "set pre \<subseteq> plain" using Cons.prems(2) by simp
  ultimately have "b \<and> last_cmd (fst w') = last_cmd (fst w1)
             \<and> smessage (fst w') = ''Unknown command: '' @ [x]"
    by (rule Cons.IH)
  then show ?case using p by simp
qed

lemma processCmd_cmd:
  "processCmd n env c w = Some w' \<Longrightarrow> cmd (fst w') = cmd (fst w)"
proof (induction n arbitrary: c w w')
  case 0
  then show ?case by (simp split: if_splits)
next
  case (Suc n)
  let ?replay = "\<lambda>v. processCmd n env (last_cmd (fst v)) v"
  show ?case
  proof (cases "c = []")
    case True
    then show ?thesis using Suc.prems by simp
  next
    case False
    then obtain b w1 where l: "cmdLoop (cmdStep env ?replay) c w = Some (b, w1)"
      using Suc.prems by (auto split: option.splits)
    have r: "\<And>v v'. ?replay v = Some v' \<Longrightarrow> cmd (fst v') = cmd (fst v)"
      by (rule Suc.IH)
    have "cmd (fst w1) = cmd (fst w)"
      using r l by (rule cmdLoop_cmd)
    moreover have "cmd (fst w') = cmd (fst w1)"
      using Suc.prems False l by (auto split: if_splits)
    ultimately show ?thesis by simp
  qed
qed


text \<open>
  Claim C7, amended. When the command interpreter finishes processing the confirmed
  command string \<open>c\<close> (the member \<open>cmd\<close>): if \<open>c\<close> is not empty and consists of command
  characters only, \<open>c\<close> is stored as the command replayed by \<open>.\<close>, whatever the
  individual commands did; if \<open>c\<close> is empty, nothing changes; and if an unknown
  character aborts the processing before any \<open>.\<close> was met, the stored command is left
  as it was and the message names the character.
\<close>

theorem processCmd_stores:
  assumes run: "processCmd n env c w = Some w'" and conf: "cmd (fst w) = c"
  shows "(c = [] \<longrightarrow> w' = w)
       \<and> (c \<noteq> [] \<and> set c \<subseteq> known \<longrightarrow> last_cmd (fst w') = c)
       \<and> (\<forall>pre x rest. c = pre @ x # rest \<and> set pre \<subseteq> plain \<and> x \<notin> known \<longrightarrow>
             last_cmd (fst w') = last_cmd (fst w)
             \<and> smessage (fst w') = ''Unknown command: '' @ [x])"
proof (cases "c = []")
  case True
  then have "w' = w" using run by (cases n) simp_all
  then show ?thesis using True by simp
next
  case False
  then obtain m where n: "n = Suc m" using run by (cases n) simp_all
  let ?replay = "\<lambda>v. processCmd m env (last_cmd (fst v)) v"
  obtain b w1 where l: "cmdLoop (cmdStep env ?replay) c w = Some (b, w1)"
    using run False unfolding n by (auto split: option.splits)
  have res: "w' = (if b then w1 else ((fst w1)\<lparr>last_cmd := cmd (fst w1)\<rparr>, snd w1))"
    using run False l unfolding n by (auto split: if_splits)
  have r: "\<And>v v'. ?replay v = Some v' \<Longrightarrow> cmd (fst v') = cmd (fst v)"
    by (rule processCmd_cmd)
  have c1: "cmd (fst w1) = c"
    using cmdLoop_cmd [OF r l] conf by simp
  have stored: "last_cmd (fst w') = c" if "set c \<subseteq> known"
  proof -
    have "\<not> b" using that l by (rule cmdLoop_known)
    then show ?thesis using res c1 by simp
  qed
  have aborted: "last_cmd (fst w') = last_cmd (fst w)
                 \<and> smessage (fst w') = ''Unknown command: '' @ [x]"
    if "c = pre @ x # rest" "set pre \<subseteq> plain" "x \<notin> known" for pre x rest
  proof -
    have "cmdLoop (cmdStep env ?replay) (pre @ x # rest) w = Some (b, w1)"
      using l that(1) by simp
    then have "b \<and> last_cmd (fst w1) = last_cmd (fst w)
                 \<and> smessage (fst w1) = ''Unknown command: '' @ [x]"
      by (rule cmdLoop_abort [OF that(2,3)])
    then show ?thesis using res by simp
  qed
  show ?thesis using False stored aborted by blast
qed

theorem processCmd_stores_witness:
  "\<exists>w'. processCmd 1 env0 ''sd''
            (melt0\<lparr>lines := [''a'', ''b''], cy := 1, cmd := ''sd''\<rparr>, []) = Some w'
      \<and> lines (fst w') = [''a''] \<and> smessage (fst w') = ''Empty filename!''
      \<and> last_cmd (fst w') = ''sd''"
proof -
  let ?w = "(melt0\<lparr>lines := [''a'', ''b''], cy := 1, cmd := ''sd''\<rparr>, [] :: int list)"
  have "map_option (\<lambda>w. (lines (fst w), smessage (fst w)))
          (processCmd 1 env0 ''sd'' ?w) = Some ([''a''], ''Empty filename!'')"
    by code_simp
  then obtain w' where run: "processCmd 1 env0 ''sd'' ?w = Some w'"
    and r: "lines (fst w') = [''a'']" "smessage (fst w') = ''Empty filename!''"
    by auto
  have conf: "cmd (fst ?w) = ''sd''" by simp
  have "''sd'' \<noteq> [] \<and> set ''sd'' \<subseteq> known" by (simp add: known_def)
  then have "last_cmd (fst w') = ''sd''"
    using processCmd_stores [OF run conf] by blast
  with run r show ?thesis by simp
qed

text \<open>The claim as stated fails for a command string with an unknown character: on
  the confirmed string \<open>x\<close> the interpreter returns from inside the loop, and the
  stored command stays empty.\<close>

theorem processCmd_unknown_counterexample:
  "map_option (\<lambda>w. (last_cmd (fst w), smessage (fst w)))
     (processCmd 1 env0 ''x'' (melt0\<lparr>lines := [[]], cmd := ''x''\<rparr>, []))
   = Some ([], ''Unknown command: x'')"
  by code_simp

text \<open>
  Claim C4. The \<open>d\<close> command refuses whenever the cursor is on row 0, however many
  lines the document has: on a four-line document with the cursor on the first row
  (where it is after loading a file) the command string \<open>ddd\<close> deletes nothing and
  leaves the message of the refusal. With the cursor on the last row it deletes
  three lines.
\<close>

theorem ddd_on_first_row:
  "map_option (\<lambda>w. (lines (fst w), smessage (fst w), cy (fst w)))
     (processCmd 1 env0 ''ddd''
        (melt0\<lparr>lines := [''a'', ''b'', ''c'', ''d''], cmd := ''ddd''\<rparr>, []))
   = Some ([''a'', ''b'', ''c'', ''d''], ''Only one line left!'', 0)
   \<and> map_option (\<lambda>w. (lines (fst w), smessage (fst w), cy (fst w)))
     (processCmd 1 env0 ''ddd''
        (melt0\<lparr>lines := [''a'', ''b'', ''c'', ''d''], cy := 3, cmd := ''ddd''\<rparr>, []))
   = Some ([''a''], [], 0)"
proof -
  have "map_option (\<lambda>w. (lines (fst w), smessage (fst w), cy (fst w)))
     (processCmd 1 env0 ''ddd''
        (melt0\<lparr>lines := [''a'', ''b'', ''c'', ''d''], cmd := ''ddd''\<rparr>, []))
   = Some ([''a'', ''b'', ''c'', ''d''], ''Only one line left!'', 0)"
    by code_simp
  moreover have "map_option (\<lambda>w. (lines (fst w), smessage (fst w), cy (fst w)))
     (processCmd 1 env0 ''ddd''
        (melt0\<lparr>lines := [''a'', ''b'', ''c'', ''d''], cy := 3, cmd := ''ddd''\<rparr>, []))
   = Some ([''a''], [], 0)"
    by code_simp
  ultimately show ?thesis by blast
qed

section \<open>The document is never empty\<close>



lemma line_bound_take_drop:
  "line_bound B ls \<Longrightarrow> line_bound B (take n ls @ drop m ls)"
  unfolding line_bound_def by (auto dest: in_set_takeD in_set_dropD)



lemma int_sized_iff: "int_sized ls \<longleftrightarrow> length ls < 2 ^ 31 \<and> line_bound (2 ^ 31) ls"
  by (simp add: int_sized_def line_bound_def)



lemma insCh_keeps:
  "cx (insCh x y c s) = cx s" "cy (insCh x y c s) = cy s"
  by (simp_all add: insCh_def)


lemma rmLn_lines:
  "length (lines (rmLn y s)) = (if unat y < length (lines s) then length (lines s) - 1 else length (lines s))"
  "line_bound B (lines s) \<Longrightarrow> line_bound B (lines (rmLn y s))"
  by (auto simp: rmLn_def line_bound_take_drop)



lemma spLn_keeps: "cx (spLn x y s) = cx s" "cy (spLn x y s) = cy s"
  by (simp_all add: spLn_def insLn_def Let_def)



lemma mvCursor_row_ok:
  assumes "mvCursor xd yd t = Some s'" and "lines t \<noteq> []" and "int_sized (lines t)"
  shows "row_ok s'" "lines s' = lines t"
proof -
  obtain nx ny where "mvCursor xd yd t = Some (scrollToFit (t\<lparr>cx := nx, cy := ny\<rparr>))"
    and "unat ny < length (lines t)"
    using mvCursor_resolves [OF assms(2,3)] by blast
  then show "row_ok s'" "lines s' = lines t"
    using assms(1,2) by (auto simp: row_ok_def scrollToFit_frame)
qed

lemma sound_fields [simp]:
  "sound (s\<lparr>smessage := m\<rparr>) = sound s" "sound (s\<lparr>fstate := f\<rparr>) = sound s"
  "sound (s\<lparr>is_running := r\<rparr>) = sound s" "sound (s\<lparr>last_cmd := c\<rparr>) = sound s"
  "sound (s\<lparr>cmd := c\<rparr>) = sound s" "sound (s\<lparr>edmode := e\<rparr>) = sound s"
  by (simp_all add: sound_def row_ok_def)

lemma mvCursor_sound:
  assumes "mvCursor xd yd t = Some s'" and "lines t \<noteq> []" and "int_sized (lines t)"
  shows "sound s'"
  using mvCursor_row_ok [OF assms] assms(3) by (simp add: sound_def)

lemma promptLoop_sound:
  assumes "promptLoop env fn s inp = Some w'" and "sound s"
  shows "sound (fst w')"
  using promptLoop_keeps [OF assms(1)] assms(2) by (simp add: sound_def row_ok_def)

lemma delete_sound:
  assumes s: "sound s" and pos: "0 < cy s" and mv: "mvCursor 0 (- 1) (rmLn (cy s) s) = Some s'"
  shows "sound s'"
proof -
  have row: "unat (cy s) < length (lines s)" using s by (simp add: sound_def row_ok_def)
  have "0 < unat (cy s)" using pos by (simp add: word_less_nat_alt)
  then have "1 < length (lines s)" using row by linarith
  then have "length (lines (rmLn (cy s) s)) \<noteq> 0" using row by (simp add: rmLn_lines)
  then have ne: "lines (rmLn (cy s) s) \<noteq> []" by simp
  have L: "length (lines s) < 2 ^ 31" "line_bound (2 ^ 31) (lines s)"
    using s by (simp_all add: sound_def int_sized_iff)
  have "length (lines (rmLn (cy s) s)) < 2 ^ 31"
    using L(1) row by (simp add: rmLn_lines)
  then have "int_sized (lines (rmLn (cy s) s))"
    using L(2) by (simp add: int_sized_iff rmLn_lines)
  with mv ne show ?thesis by (rule mvCursor_sound)
qed

lemma cmdStep_sound:
  assumes r: "\<And>v v'. replay v = Some v' \<Longrightarrow> sound (fst v) \<Longrightarrow> sound (fst v')"
    and st: "cmdStep env replay ch w = Some (b, w')" and s: "sound (fst w)"
  shows "sound (fst w')"
proof (cases "ch = CHR ''.''")
  case True
  then have "replay w = Some w'" using st by (auto simp: cmdStep_def Let_def)
  then show ?thesis using s by (rule r)
next
  case nd: False
  show ?thesis
  proof (cases "ch = CHR ''w''")
    case True
    then obtain t where "promptLoop env [] t (snd w) = Some w'" and "sound t"
      using st s by (auto simp: cmdStep_def Let_def)
    then show ?thesis by (rule promptLoop_sound)
  next
    case nw: False
    show ?thesis
    proof (cases "ch = CHR ''d'' \<and> 0 < cy (fst w)")
      case True
      then obtain s' where "mvCursor 0 (- 1) (rmLn (cy (fst w)) (fst w)) = Some s'"
        and "w' = (s'\<lparr>fstate := 2\<rparr>, snd w)"
        using st by (auto simp: cmdStep_def Let_def)
      then show ?thesis using delete_sound [OF s] True by simp
    next
      case False
      then show ?thesis
        using st s nd nw
        by (auto simp: cmdStep_def Let_def split: if_splits option.splits)
    qed
  qed
qed




lemma row_ok_fields [simp]:
  "row_ok (s\<lparr>smessage := m\<rparr>) = row_ok s" "row_ok (s\<lparr>fstate := f\<rparr>) = row_ok s"
  "row_ok (s\<lparr>cmd := c\<rparr>) = row_ok s" "row_ok (s\<lparr>edmode := e\<rparr>) = row_ok s"
  by (simp_all add: row_ok_def)





















text \<open>The status bar of a new file on a terminal of 40 columns; with a long file name
  and four-digit positions the bar does not fit and \<open>update\<close> throws.\<close>

lemma statusBar_examples:
  "statusBar (melt0\<lparr>mx := 40\<rparr>)
     = Some (''[NEW FILE]'' @ replicate 19 (CHR '' '') @ ''Ln 1, Col 1'')
   \<and> statusBar (melt0\<lparr>mx := 40, fname := replicate 30 (CHR ''n''), fstate := 2,
                       cx := 999, cy := 999\<rparr>) = None"
  by code_simp





section \<open>When the command interpreter returns\<close>

text \<open>The bound on the recursion depth only cuts runs off: a result obtained with
  some bound is the result with every larger bound. A command string without \<open>.\<close>
  and without \<open>w\<close> needs no recursion and no keyboard input, and the interpreter
  returns on it from every state whose cursor row is valid.\<close>

lemma cmdStep_mono:
  assumes "\<And>v v'. r1 v = Some v' \<Longrightarrow> r2 v = Some v'"
    and "cmdStep env r1 ch w = Some res"
  shows "cmdStep env r2 ch w = Some res"
proof (cases "ch = CHR ''.''")
  case True
  then obtain w' where "r1 w = Some w'" and "res = (False, w')"
    using assms(2) by (auto simp: cmdStep_def Let_def)
  then show ?thesis using True assms(1) by (simp add: cmdStep_def Let_def)
next
  case False
  then show ?thesis using assms(2) by (simp add: cmdStep_def Let_def)
qed

lemma cmdLoop_mono:
  assumes "\<And>v v'. r1 v = Some v' \<Longrightarrow> r2 v = Some v'"
  shows "cmdLoop (cmdStep env r1) c w = Some res \<Longrightarrow> cmdLoop (cmdStep env r2) c w = Some res"
proof (induction c arbitrary: w)
  case Nil
  then show ?case by simp
next
  case (Cons ch c)
  from Cons.prems obtain b1 w1 where st: "cmdStep env r1 ch w = Some (b1, w1)"
    by (auto split: option.splits)
  have st2: "cmdStep env r2 ch w = Some (b1, w1)" using assms st by (rule cmdStep_mono)
  show ?case
  proof (cases b1)
    case True
    then show ?thesis using Cons.prems st st2 by auto
  next
    case False
    then have "cmdLoop (cmdStep env r1) c w1 = Some res" using Cons.prems st by simp
    then have "cmdLoop (cmdStep env r2) c w1 = Some res" by (rule Cons.IH)
    then show ?thesis using False st2 by simp
  qed
qed

lemma processCmd_more_fuel:
  "processCmd n env c w = Some w' \<Longrightarrow> processCmd (Suc n) env c w = Some w'"
proof (induction n arbitrary: c w w')
  case 0
  then show ?case by (simp split: if_splits)
next
  case (Suc n)
  let ?r1 = "\<lambda>v. processCmd n env (last_cmd (fst v)) v"
  let ?r2 = "\<lambda>v. processCmd (Suc n) env (last_cmd (fst v)) v"
  show ?case
  proof (cases "c = []")
    case True
    then show ?thesis using Suc.prems by simp
  next
    case False
    then obtain res where l: "cmdLoop (cmdStep env ?r1) c w = Some res"
      using Suc.prems by (auto split: option.splits)
    have m: "\<And>v v'. ?r1 v = Some v' \<Longrightarrow> ?r2 v = Some v'" by (rule Suc.IH)
    have l2: "cmdLoop (cmdStep env ?r2) c w = Some res" using m l by (rule cmdLoop_mono)
    have "processCmd (Suc (Suc n)) env c w
            = (case cmdLoop (cmdStep env ?r2) c w of
                 None \<Rightarrow> None
               | Some (returned, w') \<Rightarrow>
                   if returned then Some w'
                   else Some ((fst w')\<lparr>last_cmd := cmd (fst w')\<rparr>, snd w'))"
      using False by simp
    also have "\<dots> = processCmd (Suc n) env c w"
      using False l l2 by simp
    finally show ?thesis using Suc.prems by simp
  qed
qed

lemma cmdStep_returns:
  assumes "sound (fst w)" and "ch \<noteq> CHR ''.''" and "ch \<noteq> CHR ''w''"
  shows "cmdStep env replay ch w \<noteq> None"
proof -
  let ?s = "fst w"
  have mv: "mvCursor 0 (- 1) (rmLn (cy ?s) ?s) \<noteq> None" if pos: "0 < cy ?s"
  proof -
    have row: "unat (cy ?s) < length (lines ?s)"
      using assms(1) by (simp add: sound_def row_ok_def)
    have "0 < unat (cy ?s)" using pos by (simp add: word_less_nat_alt)
    then have "1 < length (lines ?s)" using row by linarith
    then have "length (lines (rmLn (cy ?s) ?s)) \<noteq> 0" using row by (simp add: rmLn_lines)
    then have ne: "lines (rmLn (cy ?s) ?s) \<noteq> []" by simp
    have L: "length (lines ?s) < 2 ^ 31" "line_bound (2 ^ 31) (lines ?s)"
      using assms(1) by (simp_all add: sound_def int_sized_iff)
    have "length (lines (rmLn (cy ?s) ?s)) < 2 ^ 31"
      using L(1) row by (simp add: rmLn_lines)
    then have "int_sized (lines (rmLn (cy ?s) ?s))"
      using L(2) by (simp add: int_sized_iff rmLn_lines)
    then obtain s' where "mvCursor 0 (- 1) (rmLn (cy ?s) ?s) = Some s'"
      using mvCursor_resolves [OF ne] by blast
    then show ?thesis by (simp del: not_None_eq)
  qed
  show ?thesis
    using mv assms(2,3) by (simp add: cmdStep_def Let_def del: not_None_eq)
qed

lemma cmdLoop_returns:
  "sound (fst w) \<Longrightarrow> CHR ''.'' \<notin> set c \<Longrightarrow> CHR ''w'' \<notin> set c \<Longrightarrow>
     \<exists>res. cmdLoop (cmdStep env replay) c w = Some res"
proof (induction c arbitrary: w)
  case Nil
  then show ?case by auto
next
  case (Cons ch c)
  have "ch \<noteq> CHR ''.''" "ch \<noteq> CHR ''w''" using Cons.prems(2,3) by auto
  with Cons.prems(1) have "cmdStep env replay ch w \<noteq> None"
    by (rule cmdStep_returns)
  then obtain b1 w1 where st: "cmdStep env replay ch w = Some (b1, w1)"
    by auto
  have "cmdStep env (\<lambda>v. None) ch w = Some (b1, w1)"
    using st \<open>ch \<noteq> CHR ''.''\<close> by (simp add: cmdStep_def Let_def)
  then have s1: "sound (fst w1)"
    using Cons.prems(1) by (rule cmdStep_sound [rotated]) simp
  show ?case
  proof (cases b1)
    case True
    then show ?thesis using st by auto
  next
    case False
    have "\<exists>res. cmdLoop (cmdStep env replay) c w1 = Some res"
      using s1 Cons.prems(2,3) by (intro Cons.IH) auto
    then show ?thesis using st False by simp
  qed
qed

lemma processCmd_returns:
  assumes "sound (fst w)" and "CHR ''.'' \<notin> set c" and "CHR ''w'' \<notin> set c"
  shows "\<exists>w'. processCmd (Suc n) env c w = Some w'"
proof -
  obtain res where "cmdLoop (cmdStep env (\<lambda>v. processCmd n env (last_cmd (fst v)) v)) c w = Some res"
    using cmdLoop_returns [OF assms] by blast
  then show ?thesis by (cases res) auto
qed

end
